theory Spec2Isabelle
  imports Main "HOL-Library.AList" "HOL-Library.Product_Lexorder"
begin

unbundle bit_operations_syntax

section \<open>Topology generator: addressing, graph and route distribution\<close>

text \<open>
  A shallow embedding of \<^verbatim>\<open>topology-generator/generator.py\<close>. Python objects live in
  a store and are referred to by their index in it; object identity is index equality.
  The operations of the standard \<^verbatim>\<open>ipaddress\<close> module that the generator calls are
  written out from the library's source.
\<close>

subsection \<open>Errors and formatting\<close>

datatype error = IndexError | ValueError

text \<open>\<^verbatim>\<open>str(n)\<close> for a non-negative integer: decimal digits, no leading zero.\<close>

definition digit :: "nat \<Rightarrow> char" where
  "digit d = ''0123456789'' ! d"

function str_nat :: "nat \<Rightarrow> string" where
  "str_nat n = (if n < 10 then [digit n] else str_nat (n div 10) @ [digit (n mod 10)])"
  by pat_completeness auto
termination
  by (relation "measure (\<lambda>n. n)") auto

declare str_nat.simps [simp del]

definition str_int :: "int \<Rightarrow> string" where
  "str_int i = (if i < 0 then CHR ''-'' # str_nat (nat (- i)) else str_nat (nat i))"

subsection \<open>IPv4 networks (the \<^verbatim>\<open>ipaddress\<close> module)\<close>

text \<open>
  An \<^verbatim>\<open>IPv4Network\<close> is its network address (an integer) and its prefix length.
  Networks compare by address, then by netmask, which is the lexicographic order of
  the pair. The constructor accepts a pair only when the prefix length is at most 32,
  the address is below \<open>2^32\<close> and no host bit is set.
\<close>

type_synonym ipv4network = "nat \<times> nat"

definition network_address :: "ipv4network \<Rightarrow> nat" where
  "network_address n = fst n"

definition prefixlen :: "ipv4network \<Rightarrow> nat" where
  "prefixlen n = snd n"

definition ALL_ONES :: nat where
  "ALL_ONES = 2 ^ 32 - 1"

definition netmask_of_prefix :: "nat \<Rightarrow> nat" where
  "netmask_of_prefix p = ALL_ONES XOR (drop_bit p ALL_ONES)"

definition netmask :: "ipv4network \<Rightarrow> nat" where
  "netmask n = netmask_of_prefix (prefixlen n)"

definition hostmask :: "ipv4network \<Rightarrow> nat" where
  "hostmask n = netmask n XOR ALL_ONES"

definition broadcast_address :: "ipv4network \<Rightarrow> nat" where
  "broadcast_address n = network_address n OR hostmask n"

definition valid_network :: "ipv4network \<Rightarrow> bool" where
  "valid_network n \<longleftrightarrow>
     prefixlen n \<le> 32 \<and> network_address n < 2 ^ 32 \<and>
     network_address n AND netmask n = network_address n"

text \<open>\<^verbatim>\<open>network[n]\<close> for \<open>n \<ge> 0\<close>.\<close>

definition getitem :: "ipv4network \<Rightarrow> nat \<Rightarrow> error + nat" where
  "getitem net n =
     (if network_address net + n > broadcast_address net then Inl IndexError
      else Inr (network_address net + n))"

text \<open>\<^verbatim>\<open>network.supernet()\<close> with the default \<^verbatim>\<open>prefixlen_diff=1\<close>.\<close>

definition supernet :: "ipv4network \<Rightarrow> ipv4network" where
  "supernet net =
     (if prefixlen net = 0 then net
      else (network_address net AND push_bit 1 (netmask net), prefixlen net - 1))"

text \<open>\<^verbatim>\<open>range(start, stop, step)\<close> for a positive step.\<close>

definition range_step :: "nat \<Rightarrow> nat \<Rightarrow> nat \<Rightarrow> nat list" where
  "range_step start stop step =
     map (\<lambda>k. start + k * step) [0..<(stop - start + step - 1) div step]"

text \<open>\<^verbatim>\<open>list(network.subnets(new_prefix=p))\<close>.\<close>

definition subnets :: "ipv4network \<Rightarrow> nat \<Rightarrow> error + ipv4network list" where
  "subnets net new_prefix =
     (if prefixlen net = 32 then Inr [net]
      else if new_prefix < prefixlen net then Inl ValueError
      else
        let prefixlen_diff = new_prefix - prefixlen net;
            new_prefixlen = prefixlen net + prefixlen_diff
        in if new_prefixlen > 32 then Inl ValueError
           else
             let start = network_address net;
                 end = broadcast_address net + 1;
                 step = drop_bit prefixlen_diff (hostmask net + 1)
             in Inr (map (\<lambda>new_addr. (new_addr, new_prefixlen)) (range_step start end step)))"

text \<open>Dotted decimal notation of an address, and \<^verbatim>\<open>str(network)\<close>.\<close>

definition str_address :: "nat \<Rightarrow> string" where
  "str_address a =
     str_nat (a div 2 ^ 24) @ ''.'' @ str_nat (a div 2 ^ 16 mod 256) @ ''.'' @
     str_nat (a div 2 ^ 8 mod 256) @ ''.'' @ str_nat (a mod 256)"

definition str_network :: "ipv4network \<Rightarrow> string" where
  "str_network net = str_address (network_address net) @ ''/'' @ str_nat (prefixlen net)"

text \<open>The bit operations of the library, as arithmetic on valid networks.\<close>

lemma ALL_ONES_mask: "ALL_ONES = mask 32"
  by (simp add: ALL_ONES_def mask_eq_exp_minus_1)

lemma netmask_of_prefix_push: "p \<le> 32 \<Longrightarrow> netmask_of_prefix p = push_bit (32 - p) (mask p)"
  unfolding netmask_of_prefix_def ALL_ONES_mask drop_bit_mask_eq
  apply (rule bit_eqI)
  apply (simp add: bit_xor_iff bit_mask_iff bit_push_bit_iff)
  apply arith
  done

lemma hostmask_mask: "hostmask n = mask (32 - prefixlen n)"
  unfolding hostmask_def netmask_def netmask_of_prefix_def ALL_ONES_mask drop_bit_mask_eq
  apply (rule bit_eqI)
  apply (simp add: bit_xor_iff bit_mask_iff)
  apply arith
  done

lemma hostmask_eq: "hostmask n = 2 ^ (32 - prefixlen n) - 1"
  by (simp add: hostmask_mask mask_eq_exp_minus_1)

lemma and_push_mask: "a < 2 ^ (k + m) \<Longrightarrow> (a::nat) AND push_bit k (mask m) = a - a mod 2 ^ k"
proof -
  assume a: "a < 2 ^ (k + m)"
  have "a AND push_bit k (mask m) = push_bit k (drop_bit k a AND mask m)"
    by (rule bit_eqI) (auto simp add: bit_and_iff bit_push_bit_iff bit_drop_bit_eq bit_mask_iff)
  also have "drop_bit k a AND mask m = take_bit m (drop_bit k a)"
    by (simp add: take_bit_eq_mask)
  also have "\<dots> = drop_bit k a"
    using a by (simp add: take_bit_nat_eq_self_iff drop_bit_eq_div less_mult_imp_div_less power_add mult.commute)
  also have "push_bit k (drop_bit k a) = a - a mod 2 ^ k"
    by (simp add: push_bit_eq_mult drop_bit_eq_div minus_mod_eq_mult_div)
  finally show ?thesis .
qed

lemma valid_network_iff:
  "valid_network n \<longleftrightarrow>
     prefixlen n \<le> 32 \<and> network_address n < 2 ^ 32 \<and> 2 ^ (32 - prefixlen n) dvd network_address n"
proof (cases "prefixlen n \<le> 32 \<and> network_address n < 2 ^ 32")
  case True
  then have "network_address n < 2 ^ ((32 - prefixlen n) + prefixlen n)" by simp
  then have "network_address n AND netmask n =
             network_address n - network_address n mod 2 ^ (32 - prefixlen n)"
    using True by (simp only: netmask_def netmask_of_prefix_push and_push_mask)
  moreover have "network_address n mod 2 ^ (32 - prefixlen n) \<le> network_address n"
    by simp
  ultimately have "network_address n AND netmask n = network_address n \<longleftrightarrow>
      network_address n mod 2 ^ (32 - prefixlen n) = 0"
    by arith
  then show ?thesis
    using True by (simp add: valid_network_def dvd_eq_mod_eq_0)
next
  case False
  then show ?thesis by (auto simp add: valid_network_def)
qed

lemma broadcast_eq:
  assumes "valid_network n"
  shows "broadcast_address n = network_address n + 2 ^ (32 - prefixlen n) - 1"
proof -
  have "take_bit (32 - prefixlen n) (network_address n) = 0"
    using assms by (simp add: valid_network_iff take_bit_eq_0_iff)
  then have "network_address n AND mask (32 - prefixlen n) = 0"
    by (simp add: take_bit_eq_mask)
  then have "network_address n + mask (32 - prefixlen n) = network_address n OR mask (32 - prefixlen n)"
    by (rule disjunctive_add_eq_or)
  then show ?thesis
    by (simp add: broadcast_address_def hostmask_mask mask_eq_exp_minus_1)
qed

lemma getitem_eq:
  assumes "valid_network n"
  shows "getitem n k = (if k < 2 ^ (32 - prefixlen n) then Inr (network_address n + k) else Inl IndexError)"
proof -
  have "(0::nat) < 2 ^ (32 - prefixlen n)" by simp
  then have "network_address n + 2 ^ (32 - prefixlen n) - 1 < network_address n + k \<longleftrightarrow>
             \<not> k < 2 ^ (32 - prefixlen n)"
    by arith
  then show ?thesis
    using assms by (simp add: getitem_def broadcast_eq)
qed

lemma supernet_eq:
  assumes "valid_network n"
  shows "supernet n =
     (if prefixlen n = 0 then n
      else (network_address n - network_address n mod 2 ^ (33 - prefixlen n), prefixlen n - 1))"
proof (cases "prefixlen n = 0")
  case True
  then show ?thesis by (simp add: supernet_def)
next
  case False
  have p: "prefixlen n \<le> 32" and a: "network_address n < 2 ^ 32"
    using assms by (simp_all add: valid_network_iff)
  have "push_bit 1 (push_bit (32 - prefixlen n) (mask (prefixlen n)) :: nat) =
        push_bit (1 + (32 - prefixlen n)) (mask (prefixlen n))"
    by (rule push_bit_push_bit)
  moreover have "1 + (32 - prefixlen n) = 33 - prefixlen n"
    using p by simp
  ultimately have "push_bit 1 (netmask n) = push_bit (33 - prefixlen n) (mask (prefixlen n))"
    using p by (simp only: netmask_def netmask_of_prefix_push)
  moreover have "network_address n < 2 ^ ((33 - prefixlen n) + prefixlen n)"
    using a p by (simp add: order_less_trans [OF a])
  ultimately show ?thesis
    using False by (simp add: supernet_def and_push_mask)
qed


lemma range_step_exact:
  assumes "0 < step"
  shows "range_step start (start + m * step) step = map (\<lambda>k. start + k * step) [0..<m]"
proof -
  have "(m * step + step - 1) div step = m"
  proof -
    have "m * step + step - 1 = (step - 1) + m * step" using assms by simp
    moreover have "((step - 1) + m * step) div step = m + (step - 1) div step"
      using assms by (intro div_mult_self1) simp
    moreover have "(step - 1) div step = 0"
      using assms by simp
    ultimately show ?thesis by simp
  qed
  then show ?thesis by (simp add: range_step_def)
qed

lemma subnets_eq:
  assumes v: "valid_network n" and lt: "prefixlen n < 32"
    and le: "prefixlen n \<le> p" and p: "p \<le> 32"
  shows "subnets n p =
     Inr (map (\<lambda>k. (network_address n + k * 2 ^ (32 - p), p)) [0..<2 ^ (p - prefixlen n)])"
proof -
  have step: "drop_bit (p - prefixlen n) (Suc (hostmask n)) = (2::nat) ^ (32 - p)"
  proof -
    have "Suc (hostmask n) = 2 ^ (32 - prefixlen n)" by (simp add: hostmask_eq)
    moreover have "32 - prefixlen n - (p - prefixlen n) = 32 - p" using le by simp
    ultimately show ?thesis using le p by (simp add: drop_bit_exp_eq)
  qed
  have stop: "broadcast_address n + 1 = network_address n + 2 ^ (p - prefixlen n) * 2 ^ (32 - p)"
  proof -
    have "(2::nat) ^ (p - prefixlen n) * 2 ^ (32 - p) = 2 ^ (32 - prefixlen n)"
      using le p by (simp flip: power_add)
    then show ?thesis using v by (simp add: broadcast_eq)
  qed
  have "range_step (network_address n) (broadcast_address n + 1) (2 ^ (32 - p)) =
        map (\<lambda>k. network_address n + k * 2 ^ (32 - p)) [0..<2 ^ (p - prefixlen n)]"
    unfolding stop by (rule range_step_exact) simp
  then show ?thesis
    using lt le p by (simp add: subnets_def Let_def step comp_def)
qed

subsection \<open>NetworkPool\<close>

record NetworkPool =
  free_networks :: "ipv4network list"

definition NetworkPool_init :: "ipv4network \<Rightarrow> nat \<Rightarrow> error + NetworkPool" where
  "NetworkPool_init network new_prefix =
     (case subnets network new_prefix of
        Inl e \<Rightarrow> Inl e
      | Inr nets \<Rightarrow> Inr \<lparr>free_networks = nets\<rparr>)"

text \<open>\<^verbatim>\<open>free_networks.pop(0)\<close> raises IndexError on an empty list.\<close>

definition gen_network :: "NetworkPool \<Rightarrow> error + (ipv4network \<times> NetworkPool)" where
  "gen_network pool =
     (case free_networks pool of
        [] \<Rightarrow> Inl IndexError
      | n # rest \<Rightarrow> Inr (n, pool\<lparr>free_networks := rest\<rparr>))"

subsection \<open>Nodes, channels and interfaces\<close>

text \<open>
  \<^verbatim>\<open>Node\<close> is abstract (\<^verbatim>\<open>get_id\<close> and \<^verbatim>\<open>get_short\<close> raise in the base class); its
  five subclasses are the node kinds.
\<close>

datatype node_kind =
    NodeBackbone int int
  | NodeAggregation int int
  | NodeAccess int
  | NodeUW int
  | NodeExternal string "ipv4network list"

record node =
  n_kind :: node_kind
  n_device :: string
  n_component :: string
  n_interfaces :: "nat list"
  n_include_routes :: bool

text \<open>A route record \<^verbatim>\<open>(channel, gw_interface, dist)\<close>: origin channel, gateway interface, distance.\<close>

type_synonym route_record = "nat \<times> nat \<times> nat"

record channel =
  c_id :: string
  c_network :: ipv4network
  c_delay :: int
  c_interfaces :: "nat list"
  c_routes :: "route_record list"

record interface =
  i_node :: nat
  i_id :: string
  i_channel :: nat
  i_offset :: nat

record heap =
  nodes :: "node list"
  channels :: "channel list"
  interfaces :: "interface list"

definition empty_heap :: heap where
  "empty_heap = \<lparr>nodes = [], channels = [], interfaces = []\<rparr>"

fun get_id :: "node_kind \<Rightarrow> string" where
  "get_id (NodeBackbone num subnum) = ''backbone'' @ str_int num @ ''.'' @ str_int subnum"
| "get_id (NodeAggregation num subnum) = ''aggregation'' @ str_int num @ ''.'' @ str_int subnum"
| "get_id (NodeAccess num) = ''access'' @ str_int num"
| "get_id (NodeUW num) = ''uw'' @ str_int num"
| "get_id (NodeExternal ident additional_networks) = ident"

fun get_short :: "node_kind \<Rightarrow> string" where
  "get_short (NodeBackbone num subnum) = ''bb'' @ str_int num @ ''.'' @ str_int subnum"
| "get_short (NodeAggregation num subnum) = ''agg'' @ str_int num @ ''.'' @ str_int subnum"
| "get_short (NodeAccess num) = ''acc'' @ str_int num"
| "get_short (NodeUW num) = ''uw'' @ str_int num"
| "get_short (NodeExternal ident additional_networks) = ident"

fun get_additional_networks :: "node_kind \<Rightarrow> ipv4network list" where
  "get_additional_networks (NodeExternal ident additional_networks) = additional_networks"
| "get_additional_networks _ = []"

text \<open>The constructors return the new store and the reference of the new object.\<close>

definition Node_init :: "node_kind \<Rightarrow> string \<Rightarrow> string \<Rightarrow> bool \<Rightarrow> heap \<Rightarrow> heap \<times> nat" where
  "Node_init kind device component include_routes h =
     (h\<lparr>nodes := nodes h @
        [\<lparr>n_kind = kind, n_device = device, n_component = component,
          n_interfaces = [], n_include_routes = include_routes\<rparr>]\<rparr>,
      length (nodes h))"

text \<open>The subclass constructors fix device, component and \<^verbatim>\<open>include_routes\<close>.\<close>

fun Node_new :: "node_kind \<Rightarrow> heap \<Rightarrow> heap \<times> nat" where
  "Node_new (NodeBackbone num subnum) h =
     Node_init (NodeBackbone num subnum) ''router'' ''simple-router'' True h"
| "Node_new (NodeAggregation num subnum) h =
     Node_init (NodeAggregation num subnum) ''router'' ''simple-router'' True h"
| "Node_new (NodeAccess num) h = Node_init (NodeAccess num) ''router'' ''simple-router'' True h"
| "Node_new (NodeUW num) h = Node_init (NodeUW num) ''container'' ''simple-uw'' True h"
| "Node_new (NodeExternal ident nets) h = Node_init (NodeExternal ident nets) ''host'' ''host'' False h"

definition Channel_init :: "string \<Rightarrow> ipv4network \<Rightarrow> int \<Rightarrow> heap \<Rightarrow> heap \<times> nat" where
  "Channel_init ident network delay h =
     (h\<lparr>channels := channels h @
        [\<lparr>c_id = ident, c_network = network, c_delay = delay, c_interfaces = [], c_routes = []\<rparr>]\<rparr>,
      length (channels h))"

definition Node_add_interface :: "heap \<Rightarrow> nat \<Rightarrow> nat \<Rightarrow> heap \<times> string" where
  "Node_add_interface h n interface =
     (let ident = ''i'' @ str_nat (length (n_interfaces (nodes h ! n)))
      in (h\<lparr>nodes := (nodes h)[n := (nodes h ! n)
              \<lparr>n_interfaces := n_interfaces (nodes h ! n) @ [interface]\<rparr>]\<rparr>, ident))"

definition Channel_add_interface :: "heap \<Rightarrow> nat \<Rightarrow> nat \<Rightarrow> heap \<times> nat" where
  "Channel_add_interface h c interface =
     (let offset = length (c_interfaces (channels h ! c))
      in (h\<lparr>channels := (channels h)[c := (channels h ! c)
              \<lparr>c_interfaces := c_interfaces (channels h ! c) @ [interface]\<rparr>]\<rparr>, offset))"

text \<open>
  \<^verbatim>\<open>Interface(node, channel, id)\<close>: the new object registers itself with its node and
  then with its channel. An explicit id is stored as given.
\<close>

definition Interface_init :: "heap \<Rightarrow> nat \<Rightarrow> nat \<Rightarrow> string option \<Rightarrow> heap \<times> nat" where
  "Interface_init h n c ident =
     (let self = length (interfaces h);
          (h1, auto_id) = Node_add_interface h n self;
          the_id = (case ident of Some s \<Rightarrow> s | None \<Rightarrow> auto_id);
          (h2, offset) = Channel_add_interface h1 c self
      in (h2\<lparr>interfaces := interfaces h2 @
            [\<lparr>i_node = n, i_id = the_id, i_channel = c, i_offset = offset\<rparr>]\<rparr>, self))"

definition Channel_auto ::
  "heap \<Rightarrow> nat \<Rightarrow> nat \<Rightarrow> ipv4network \<Rightarrow> int \<Rightarrow> string option \<Rightarrow> string option \<Rightarrow> heap \<times> nat"
where
  "Channel_auto h node_a node_b network delay id_a id_b =
     (let (h1, channel) =
            Channel_init (''c_'' @ get_short (n_kind (nodes h ! node_a)) @ ''_'' @
                          get_short (n_kind (nodes h ! node_b))) network delay h;
          (h2, ia) = Interface_init h1 node_a channel id_a;
          (h3, ib) = Interface_init h2 node_b channel id_b
      in (h3, channel))"

text \<open>\<^verbatim>\<open>Interface.get_ip\<close>: an \<^verbatim>\<open>IPv4Interface\<close> is an address with a prefix length.\<close>

definition get_ip :: "heap \<Rightarrow> nat \<Rightarrow> error + (nat \<times> nat)" where
  "get_ip h i =
     (let network = c_network (channels h ! i_channel (interfaces h ! i))
      in case getitem network (i_offset (interfaces h ! i) + 1) of
           Inl e \<Rightarrow> Inl e
         | Inr a \<Rightarrow> Inr (a, prefixlen network))"

record interface_dump =
  d_id :: string
  d_channel :: string
  d_ip :: string

definition Interface_dump :: "heap \<Rightarrow> nat \<Rightarrow> error + interface_dump" where
  "Interface_dump h i =
     (case get_ip h i of
        Inl e \<Rightarrow> Inl e
      | Inr (a, p) \<Rightarrow>
          Inr \<lparr>d_id = i_id (interfaces h ! i),
               d_channel = c_id (channels h ! i_channel (interfaces h ! i)),
               d_ip = str_address a @ ''/'' @ str_nat p\<rparr>)"

subsection \<open>Route distribution\<close>

text \<open>
  \<^verbatim>\<open>Channel.distribute_route\<close>. The loop state is the store, the set \<^verbatim>\<open>known\<close> and the
  queue. Every interface reference held by a store that the constructors built is in
  range; for a reference outside the store, which Python cannot hold, the step leaves
  the state as it is.
\<close>

type_synonym bfs_state = "heap \<times> nat set \<times> (nat \<times> nat) list"

definition add_route :: "heap \<Rightarrow> nat \<Rightarrow> route_record \<Rightarrow> heap" where
  "add_route h c r =
     h\<lparr>channels := (channels h)[c := (channels h ! c)\<lparr>c_routes := c_routes (channels h ! c) @ [r]\<rparr>]\<rparr>"

definition visit :: "nat \<Rightarrow> nat \<Rightarrow> nat \<Rightarrow> bfs_state \<Rightarrow> bfs_state" where
  "visit self cur_dist out_interface s =
     (case s of (h, known, queue) \<Rightarrow>
        if out_interface < length (interfaces h) then
          let next_channel = i_channel (interfaces h ! out_interface)
          in if next_channel \<notin> known
             then (add_route h next_channel (self, out_interface, cur_dist + 1),
                   insert next_channel known,
                   queue @ [(next_channel, cur_dist + 1)])
             else s
        else s)"

definition expand :: "nat \<Rightarrow> nat \<Rightarrow> nat \<Rightarrow> bfs_state \<Rightarrow> bfs_state" where
  "expand self cur_channel cur_dist s =
     fold (\<lambda>in_interface s.
             fold (visit self cur_dist)
                  (n_interfaces (nodes (fst s) ! i_node (interfaces (fst s) ! in_interface))) s)
          (c_interfaces (channels (fst s) ! cur_channel)) s"

definition bfs_measure :: "bfs_state \<Rightarrow> nat" where
  "bfs_measure s =
     (case s of (h, known, queue) \<Rightarrow>
        2 * card (i_channel ` set (interfaces h) - known) + length queue)"

lemma visit_measure: "bfs_measure (visit self d out s) \<le> bfs_measure s"
proof (cases s)
  case (fields h known queue)
  show ?thesis
  proof (cases "out < length (interfaces h) \<and> i_channel (interfaces h ! out) \<notin> known")
    case True
    let ?U = "i_channel ` set (interfaces h)"
    let ?c = "i_channel (interfaces h ! out)"
    have inU: "?c \<in> ?U - known" using True by auto
    have "?U - insert ?c known = (?U - known) - {?c}" by auto
    then have "card (?U - insert ?c known) = card (?U - known) - 1"
      using inU by (simp add: card_Diff_singleton)
    moreover have "card (?U - known) \<ge> 1"
      using inU by (metis One_nat_def Suc_leI card_gt_0_iff empty_iff finite_Diff finite_imageI finite_set)
    ultimately show ?thesis
      using True fields by (simp add: visit_def bfs_measure_def add_route_def Let_def)
  next
    case False
    then show ?thesis using fields by (auto simp add: visit_def Let_def)
  qed
qed

lemma fold_measure:
  assumes "\<And>x s. bfs_measure (g x s) \<le> bfs_measure s"
  shows "bfs_measure (fold g xs s) \<le> bfs_measure s"
proof (induction xs arbitrary: s)
  case Nil
  show ?case by simp
next
  case (Cons x xs)
  have "bfs_measure (fold g xs (g x s)) \<le> bfs_measure (g x s)" by (rule Cons.IH)
  also have "\<dots> \<le> bfs_measure s" by (rule assms)
  finally show ?case by simp
qed

lemma expand_measure: "bfs_measure (expand self cur d s) \<le> bfs_measure s"
  unfolding expand_def
  by (rule fold_measure, rule fold_measure, rule visit_measure)

text \<open>
  The \<^verbatim>\<open>while len(queue)\<close> loop. It terminates: a channel enters the queue only when it
  leaves the unknown channels, of which the store holds finitely many.
\<close>

function bfs_loop :: "nat \<Rightarrow> bfs_state \<Rightarrow> heap" where
  "bfs_loop self (h, known, []) = h"
| "bfs_loop self (h, known, (cur_channel, cur_dist) # queue) =
     bfs_loop self (expand self cur_channel cur_dist (h, known, queue))"
  by pat_completeness auto
termination
proof (relation "measure (\<lambda>(self, s). bfs_measure s)")
  show "wf (measure (\<lambda>(self, s). bfs_measure s))" by simp
next
  fix self :: nat and h known cur_channel cur_dist and queue :: "(nat \<times> nat) list"
  have "bfs_measure (expand self cur_channel cur_dist (h, known, queue)) \<le> bfs_measure (h, known, queue)"
    by (rule expand_measure)
  also have "\<dots> < bfs_measure (h, known, (cur_channel, cur_dist) # queue)"
    by (simp add: bfs_measure_def)
  finally show "((self, expand self cur_channel cur_dist (h, known, queue)),
          (self, h, known, (cur_channel, cur_dist) # queue)) \<in> measure (\<lambda>(self, s). bfs_measure s)"
    by simp
qed

declare bfs_loop.simps [simp del]

definition distribute_route :: "heap \<Rightarrow> nat \<Rightarrow> heap" where
  "distribute_route h self = bfs_loop self (h, {self}, [(self, 0)])"

subsection \<open>Route tables of a node\<close>

text \<open>
  A Python dict is an association list in insertion order: \<^const>\<open>AList.update\<close> replaces
  the value of a key in place and appends a new key. A resolved route is
  \<^verbatim>\<open>(interface, gw_interface, dist)\<close>.
\<close>

type_synonym route = "nat \<times> nat \<times> nat"

definition route_step :: "nat \<Rightarrow> route_record \<Rightarrow> (nat \<times> route) list \<Rightarrow> (nat \<times> route) list" where
  "route_step interface r routes =
     (case r of (channel, gw_interface, dist) \<Rightarrow>
        if (case map_of routes channel of None \<Rightarrow> True | Some (i, g, d) \<Rightarrow> d > dist)
        then AList.update channel (interface, gw_interface, dist) routes
        else routes)"

definition get_routes :: "heap \<Rightarrow> nat \<Rightarrow> (nat \<times> route) list" where
  "get_routes h n =
     fold (\<lambda>interface routes.
             fold (route_step interface)
                  (c_routes (channels h ! i_channel (interfaces h ! interface))) routes)
          (n_interfaces (nodes h ! n)) []"

text \<open>
  The merge loop of \<^verbatim>\<open>get_simplified_routes\<close>, on the list \<^verbatim>\<open>result\<close> held in reverse (its
  last element first): while the two last entries have the same supernet and the same
  gateway interface, they are replaced by the supernet with the value of the last one.
\<close>

fun merge_top :: "(ipv4network \<times> route) list \<Rightarrow> (ipv4network \<times> route) list" where
  "merge_top (a # b # rest) =
     (if supernet (fst a) = supernet (fst b) \<and> fst (snd (snd a)) = fst (snd (snd b))
      then merge_top ((supernet (fst a), snd a) # rest)
      else a # b # rest)"
| "merge_top result = result"

definition simplify :: "(ipv4network \<times> route) list \<Rightarrow> (ipv4network \<times> route) list" where
  "simplify routes =
     (let result = rev (fold (\<lambda>entry result. merge_top (entry # result)) (sort_key fst routes) [])
      in fold (\<lambda>(network, v) d. AList.update network v d) result [])"

definition get_simplified_routes :: "heap \<Rightarrow> nat \<Rightarrow> (ipv4network \<times> route) list" where
  "get_simplified_routes h n =
     simplify (map (\<lambda>(channel, v). (c_network (channels h ! channel), v)) (get_routes h n))"

subsection \<open>Dumps\<close>

record route_dump =
  r_network :: string
  r_gateway :: string
  r_metric :: nat

record node_dump =
  nd_id :: string
  nd_device :: string
  nd_component :: string
  nd_interfaces :: "interface_dump list"
  nd_routes :: "route_dump list option"

fun map_result :: "('a \<Rightarrow> error + 'b) \<Rightarrow> 'a list \<Rightarrow> error + 'b list" where
  "map_result f [] = Inr []"
| "map_result f (x # xs) =
     (case f x of
        Inl e \<Rightarrow> Inl e
      | Inr y \<Rightarrow> (case map_result f xs of Inl e \<Rightarrow> Inl e | Inr ys \<Rightarrow> Inr (y # ys)))"

definition dump_route :: "heap \<Rightarrow> ipv4network \<times> route \<Rightarrow> error + route_dump" where
  "dump_route h e =
     (case e of (network, interface, gw_interface, dist) \<Rightarrow>
        (case get_ip h gw_interface of
           Inl err \<Rightarrow> Inl err
         | Inr (a, p) \<Rightarrow>
             Inr \<lparr>r_network = str_network network, r_gateway = str_address a, r_metric = dist\<rparr>))"

text \<open>The list comprehension of \<^verbatim>\<open>Node.dump\<close>: the entries with \<^verbatim>\<open>interface != gw_interface\<close>.\<close>

definition dump_routes :: "heap \<Rightarrow> nat \<Rightarrow> error + route_dump list" where
  "dump_routes h n =
     map_result (dump_route h)
       (filter (\<lambda>(network, interface, gw_interface, dist). interface \<noteq> gw_interface)
          (get_simplified_routes h n))"

definition Node_dump :: "heap \<Rightarrow> nat \<Rightarrow> error + node_dump" where
  "Node_dump h n =
     (case map_result (Interface_dump h) (n_interfaces (nodes h ! n)) of
        Inl e \<Rightarrow> Inl e
      | Inr ifs \<Rightarrow>
          if n_include_routes (nodes h ! n) then
            (case dump_routes h n of
               Inl e \<Rightarrow> Inl e
             | Inr rs \<Rightarrow>
                 Inr \<lparr>nd_id = get_id (n_kind (nodes h ! n)), nd_device = n_device (nodes h ! n),
                      nd_component = n_component (nodes h ! n), nd_interfaces = ifs,
                      nd_routes = Some rs\<rparr>)
          else
            Inr \<lparr>nd_id = get_id (n_kind (nodes h ! n)), nd_device = n_device (nodes h ! n),
                 nd_component = n_component (nodes h ! n), nd_interfaces = ifs,
                 nd_routes = None\<rparr>)"

subsection \<open>Topology\<close>

record topology =
  backbone_nodes :: "nat list list"
  aggregation_nodes :: "nat list list"
  access_nodes :: "nat list"
  uw_nodes :: "nat list"
  external_nodes :: "nat list"

definition get_nodes :: "topology \<Rightarrow> nat list" where
  "get_nodes t =
     concat (backbone_nodes t @ aggregation_nodes t) @ access_nodes t @ uw_nodes t @ external_nodes t"

text \<open>
  \<^verbatim>\<open>get_channels\<close> builds a set of channels and returns \<^verbatim>\<open>list(channels)\<close>. The order of
  that list is the set's iteration order, which the source does not fix: the set is
  modelled, and an enumeration of it is any duplicate-free list of its elements.
\<close>

definition get_channels :: "heap \<Rightarrow> topology \<Rightarrow> nat set" where
  "get_channels h t =
     set (concat (map (\<lambda>n. map (\<lambda>i. i_channel (interfaces h ! i)) (n_interfaces (nodes h ! n)))
                      (get_nodes t)))"

definition enumerates :: "nat list \<Rightarrow> nat set \<Rightarrow> bool" where
  "enumerates chs S \<longleftrightarrow> distinct chs \<and> set chs = S"

text \<open>\<^verbatim>\<open>Topology.distribute_routes\<close>, given the enumeration of the channels.\<close>

definition distribute_routes :: "heap \<Rightarrow> nat list \<Rightarrow> heap" where
  "distribute_routes h chs = fold (\<lambda>channel h. distribute_route h channel) chs h"

subsection \<open>Construction sequences\<close>

text \<open>
  A store is built by constructor calls and calls of \<^verbatim>\<open>distribute_route\<close>. A call names
  objects that exist and passes an \<^verbatim>\<open>IPv4Network\<close> that its constructor accepted; a
  command that does not is skipped.
\<close>

datatype command =
    NewNode node_kind
  | NewChannel string ipv4network int
  | NewInterface nat nat "string option"
  | Distribute "nat list"

fun exec :: "command \<Rightarrow> heap \<Rightarrow> heap" where
  "exec (NewNode kind) h = fst (Node_new kind h)"
| "exec (NewChannel ident network delay) h =
     (if valid_network network then fst (Channel_init ident network delay h) else h)"
| "exec (NewInterface n c ident) h =
     (if n < length (nodes h) \<and> c < length (channels h) then fst (Interface_init h n c ident) else h)"
| "exec (Distribute chs) h =
     (if list_all (\<lambda>c. c < length (channels h)) chs then distribute_routes h chs else h)"

definition build :: "command list \<Rightarrow> heap" where
  "build cmds = fold exec cmds empty_heap"

subsection \<open>Route lists are only appended to\<close>

text \<open>
  The traversal reads the graph and appends to route lists: it commutes with putting
  records in front of the route lists (\<open>prepend\<close>).
\<close>

definition routes_at :: "heap \<Rightarrow> nat \<Rightarrow> route_record list" where
  "routes_at h c = c_routes (channels h ! c)"

definition clear_routes :: "heap \<Rightarrow> heap" where
  "clear_routes h = h\<lparr>channels := map (\<lambda>ch. ch\<lparr>c_routes := []\<rparr>) (channels h)\<rparr>"

definition prepend :: "(nat \<Rightarrow> route_record list) \<Rightarrow> heap \<Rightarrow> heap" where
  "prepend P h =
     h\<lparr>channels := map (\<lambda>(c, ch). ch\<lparr>c_routes := P c @ c_routes ch\<rparr>) (enumerate 0 (channels h))\<rparr>"

lemma nth_beyond: "length xs = length ys \<Longrightarrow> length xs \<le> n \<Longrightarrow> xs ! n = ys ! n"
proof (induction xs arbitrary: ys n)
  case Nil
  then show ?case by simp
next
  case (Cons x xs)
  then obtain y ys' where ys: "ys = y # ys'" by (cases ys) auto
  from Cons.prems obtain m where n: "n = Suc m" by (cases n) auto
  show ?case using Cons.prems Cons.IH[of ys' m] by (simp add: ys n)
qed

lemma prepend_simps [simp]:
  "nodes (prepend P h) = nodes h"
  "interfaces (prepend P h) = interfaces h"
  "length (channels (prepend P h)) = length (channels h)"
  by (simp_all add: prepend_def)

lemma prepend_nth:
  "c < length (channels h) \<Longrightarrow>
   channels (prepend P h) ! c = (channels h ! c)\<lparr>c_routes := P c @ c_routes (channels h ! c)\<rparr>"
  by (simp add: prepend_def nth_enumerate_eq)

lemma prepend_interfaces_at [simp]:
  "c_interfaces (channels (prepend P h) ! c) = c_interfaces (channels h ! c)"
proof (cases "c < length (channels h)")
  case True
  then show ?thesis by (simp add: prepend_nth)
next
  case False
  then have "channels (prepend P h) ! c = channels h ! c"
    by (intro nth_beyond) simp_all
  then show ?thesis by simp
qed

lemma add_route_prepend: "add_route (prepend P h) c r = prepend P (add_route h c r)"
proof (cases "c < length (channels h)")
  case True
  have "channels (add_route (prepend P h) c r) = channels (prepend P (add_route h c r))"
  proof (rule nth_equalityI)
    show "length (channels (add_route (prepend P h) c r)) = length (channels (prepend P (add_route h c r)))"
      by (simp add: add_route_def)
  next
    fix i assume "i < length (channels (add_route (prepend P h) c r))"
    then have i: "i < length (channels h)" by (simp add: add_route_def)
    have l: "length (channels (add_route h c r)) = length (channels h)" by (simp add: add_route_def)
    show "channels (add_route (prepend P h) c r) ! i = channels (prepend P (add_route h c r)) ! i"
      using i True l by (cases "i = c") (simp_all add: prepend_nth, simp_all add: add_route_def prepend_nth)
  qed
  then show ?thesis by (simp add: add_route_def prepend_def)
next
  case False
  then show ?thesis by (simp add: add_route_def list_update_beyond)
qed


definition lift :: "(nat \<Rightarrow> route_record list) \<Rightarrow> bfs_state \<Rightarrow> bfs_state" where
  "lift P s = (case s of (h, known, queue) \<Rightarrow> (prepend P h, known, queue))"

lemma fst_lift [simp]: "fst (lift P s) = prepend P (fst s)"
  by (cases s) (simp add: lift_def)

lemma visit_lift: "visit self d out (lift P s) = lift P (visit self d out s)"
  by (cases s) (simp add: visit_def lift_def Let_def add_route_prepend)

lemma fold_lift:
  assumes "\<And>x s. g x (lift P s) = lift P (g x s)"
  shows "fold g xs (lift P s) = lift P (fold g xs s)"
  by (induction xs arbitrary: s) (simp_all add: assms)

lemma expand_lift: "expand self cur d (lift P s) = lift P (expand self cur d s)"
  unfolding expand_def
  by (simp add: fold_lift [where g = "\<lambda>in_interface s. fold (visit self d)
        (n_interfaces (nodes (fst s) ! i_node (interfaces (fst s) ! in_interface))) s"] fold_lift visit_lift)

lemma bfs_loop_lift: "bfs_loop self (lift P s) = prepend P (bfs_loop self s)"
proof (induction self s rule: bfs_loop.induct)
  case (1 self h known)
  show ?case by (simp add: lift_def bfs_loop.simps)
next
  case (2 self h known cur_channel cur_dist queue)
  have "bfs_loop self (lift P (h, known, (cur_channel, cur_dist) # queue)) =
        bfs_loop self (expand self cur_channel cur_dist (lift P (h, known, queue)))"
    by (simp add: lift_def bfs_loop.simps)
  also have "\<dots> = bfs_loop self (lift P (expand self cur_channel cur_dist (h, known, queue)))"
    by (simp only: expand_lift)
  also have "\<dots> = prepend P (bfs_loop self (expand self cur_channel cur_dist (h, known, queue)))"
    by (rule "2.IH")
  finally show ?case by (simp add: bfs_loop.simps)
qed

lemma distribute_route_prepend:
  "distribute_route (prepend P h) self = prepend P (distribute_route h self)"
  using bfs_loop_lift [of self P "(h, {self}, [(self, 0)])"]
  by (simp add: distribute_route_def lift_def)

lemma distribute_routes_prepend:
  "distribute_routes (prepend P h) chs = prepend P (distribute_routes h chs)"
  unfolding distribute_routes_def
  by (induction chs arbitrary: h) (simp_all add: distribute_route_prepend)

subsection \<open>Invariants of the traversal\<close>

lemma fold_invariant:
  assumes "\<And>x s. I s \<Longrightarrow> I (g x s)" and "I s"
  shows "I (fold g xs s)"
  using assms(2) by (induction xs arbitrary: s) (simp_all add: assms(1))

lemma expand_invariant:
  assumes "\<And>out s. I s \<Longrightarrow> I (visit self d out s)" and "I s"
  shows "I (expand self cur d s)"
  unfolding expand_def
proof (rule fold_invariant [where I = I])
  show "I s" by (rule assms(2))
next
  fix x s assume "I s"
  then show "I (fold (visit self d) (n_interfaces (nodes (fst s) ! i_node (interfaces (fst s) ! x))) s)"
    by (rule fold_invariant [where I = I, rotated]) (rule assms(1))
qed

lemma bfs_loop_invariant:
  assumes "\<And>d out h k q. P h k \<Longrightarrow>
             P (fst (visit self d out (h, k, q))) (fst (snd (visit self d out (h, k, q))))"
    and "P h k"
  shows "\<exists>k'. P (bfs_loop self (h, k, q)) k'"
  using assms
proof (induction self "(h, k, q)" arbitrary: h k q rule: bfs_loop.induct)
  case (1 self h known)
  then show ?case by (auto simp add: bfs_loop.simps)
next
  case (2 self h known cur_channel cur_dist queue)
  let ?I = "\<lambda>s. P (fst s) (fst (snd s))"
  have "?I (expand self cur_channel cur_dist (h, known, queue))"
  proof (rule expand_invariant)
    show "?I (h, known, queue)" using "2.prems"(2) by simp
  next
    fix out and s :: bfs_state assume "?I s"
    then show "?I (visit self cur_dist out s)"
      using "2.prems"(1) [of "fst s" "fst (snd s)" cur_dist out "snd (snd s)"] by simp
  qed
  then obtain h' k' q' where e: "expand self cur_channel cur_dist (h, known, queue) = (h', k', q')"
    and P: "P h' k'"
    by (cases "expand self cur_channel cur_dist (h, known, queue)") auto
  from "2.hyps" [OF e "2.prems"(1) P] show ?case by (simp add: e bfs_loop.simps)
qed


lemma clear_routes_simps [simp]:
  "nodes (clear_routes h) = nodes h"
  "interfaces (clear_routes h) = interfaces h"
  "length (channels (clear_routes h)) = length (channels h)"
  by (simp_all add: clear_routes_def)

lemma clear_routes_eq_length:
  "clear_routes h' = clear_routes h \<Longrightarrow> length (channels h') = length (channels h)"
  by (metis clear_routes_simps(3))

lemma clear_routes_add_route: "clear_routes (add_route h c r) = clear_routes h"
proof (cases "c < length (channels h)")
  case True
  then show ?thesis
    by (simp add: clear_routes_def add_route_def map_update list_update_same_conv)
next
  case False
  then show ?thesis by (simp add: add_route_def list_update_beyond)
qed

lemma routes_at_add_route:
  "routes_at (add_route h c r) c' =
     (if c' = c \<and> c < length (channels h) then routes_at h c @ [r] else routes_at h c')"
  by (cases "c < length (channels h)") (auto simp add: routes_at_def add_route_def list_update_beyond)

lemma clear_routes_visit:
  "clear_routes (fst (visit self d out (h, k, q))) = clear_routes h"
  by (simp add: visit_def Let_def clear_routes_add_route)

lemma clear_routes_bfs_loop: "clear_routes (bfs_loop self (h, k, q)) = clear_routes h"
  using bfs_loop_invariant [where P = "\<lambda>h' k'. clear_routes h' = clear_routes h" and h = h and self = self and k = k and q = q]
  by (simp add: clear_routes_visit)

lemma clear_routes_distribute_route [simp]:
  "clear_routes (distribute_route h origin) = clear_routes h"
  by (simp add: distribute_route_def clear_routes_bfs_loop)

lemma clear_routes_distribute_routes [simp]:
  "clear_routes (distribute_routes h chs) = clear_routes h"
  unfolding distribute_routes_def by (induction chs arbitrary: h) simp_all

text \<open>A traversal from a channel appends records of that origin, at distance at least 1, to other channels.\<close>

definition origin_ok :: "interface list \<Rightarrow> nat \<Rightarrow> nat \<Rightarrow> route_record \<Rightarrow> bool" where
  "origin_ok ifs self c r \<longleftrightarrow>
     fst r = self \<and> 1 \<le> snd (snd r) \<and> c \<noteq> self \<and>
     fst (snd r) < length ifs \<and> i_channel (ifs ! fst (snd r)) = c"

lemma interfaces_add_route [simp]: "interfaces (add_route h c r) = interfaces h"
  by (simp add: add_route_def)

lemma new_records_visit:
  assumes "self \<in> k" and "interfaces h = ifs"
    and "\<forall>c. \<forall>r \<in> set (routes_at h c). r \<in> set (routes_at h0 c) \<or> origin_ok ifs self c r"
  shows "self \<in> fst (snd (visit self d out (h, k, q))) \<and>
         interfaces (fst (visit self d out (h, k, q))) = ifs \<and>
         (\<forall>c. \<forall>r \<in> set (routes_at (fst (visit self d out (h, k, q))) c).
            r \<in> set (routes_at h0 c) \<or> origin_ok ifs self c r)"
  using assms by (auto simp add: visit_def Let_def routes_at_add_route origin_ok_def)

lemma new_records_bfs_loop:
  assumes "self \<in> k"
  shows "\<forall>r \<in> set (routes_at (bfs_loop self (h, k, q)) c).
           r \<in> set (routes_at h c) \<or> origin_ok (interfaces h) self c r"
proof -
  let ?P = "\<lambda>h' k'. self \<in> k' \<and> interfaces h' = interfaces h \<and>
     (\<forall>c. \<forall>r \<in> set (routes_at h' c). r \<in> set (routes_at h c) \<or> origin_ok (interfaces h) self c r)"
  have "\<exists>k'. ?P (bfs_loop self (h, k, q)) k'"
  proof (rule bfs_loop_invariant [where P = ?P])
    show "?P h k" using assms by simp
  next
    fix d out h' k' q'
    assume "?P h' k'"
    then show "?P (fst (visit self d out (h', k', q'))) (fst (snd (visit self d out (h', k', q'))))"
      using new_records_visit [of self k' h' "interfaces h" h d out q'] by blast
  qed
  then show ?thesis by blast
qed

lemma new_records_distribute_route:
  "r \<in> set (routes_at (distribute_route h origin) c) \<Longrightarrow>
   r \<in> set (routes_at h c) \<or> origin_ok (interfaces h) origin c r"
  using new_records_bfs_loop [of origin "{origin}" h "[(origin, 0)]" c]
  by (auto simp add: distribute_route_def)

text \<open>
  \<open>delta h origin c\<close> is the list of records that the traversal from \<open>origin\<close> appends to
  the route list of channel \<open>c\<close>; it depends on the graph only.
\<close>

lemma routes_at_prepend:
  "c < length (channels h) \<Longrightarrow> routes_at (prepend P h) c = P c @ routes_at h c"
  by (simp add: routes_at_def prepend_nth)

lemma prepend_clear_routes: "prepend (routes_at h) (clear_routes h) = h"
proof -
  have "channels (prepend (routes_at h) (clear_routes h)) = channels h"
    by (rule nth_equalityI) (simp_all add: prepend_nth, simp add: clear_routes_def routes_at_def)
  then show ?thesis by (simp add: prepend_def clear_routes_def)
qed

definition delta :: "heap \<Rightarrow> nat \<Rightarrow> nat \<Rightarrow> route_record list" where
  "delta h origin c = routes_at (distribute_route (clear_routes h) origin) c"

lemma routes_at_clear_routes:
  "c < length (channels h) \<Longrightarrow> routes_at (clear_routes h) c = []"
  by (simp add: routes_at_def clear_routes_def)

lemma routes_at_distribute_route:
  assumes "c < length (channels h)"
  shows "routes_at (distribute_route h origin) c = routes_at h c @ delta h origin c"
proof -
  have "distribute_route h origin = distribute_route (prepend (routes_at h) (clear_routes h)) origin"
    by (simp add: prepend_clear_routes)
  also have "\<dots> = prepend (routes_at h) (distribute_route (clear_routes h) origin)"
    by (rule distribute_route_prepend)
  finally have "routes_at (distribute_route h origin) c =
      routes_at (prepend (routes_at h) (distribute_route (clear_routes h) origin)) c"
    by simp
  moreover have "length (channels (distribute_route (clear_routes h) origin)) = length (channels h)"
    using clear_routes_eq_length [of "distribute_route (clear_routes h) origin" "clear_routes h"]
    by simp
  ultimately show ?thesis
    using assms by (simp add: routes_at_prepend delta_def)
qed

lemma delta_distribute_route [simp]: "delta (distribute_route h origin) = delta h"
  by (simp add: delta_def fun_eq_iff)

lemma length_channels_distribute_route [simp]:
  "length (channels (distribute_route h origin)) = length (channels h)"
  by (rule clear_routes_eq_length) simp

lemma length_channels_distribute_routes [simp]:
  "length (channels (distribute_routes h chs)) = length (channels h)"
  by (rule clear_routes_eq_length) simp

lemma routes_at_distribute_routes:
  assumes "c < length (channels h)"
  shows "routes_at (distribute_routes h chs) c =
         routes_at h c @ concat (map (\<lambda>origin. delta h origin c) chs)"
  using assms unfolding distribute_routes_def
  by (induction chs arbitrary: h) (simp_all add: routes_at_distribute_route)

lemma delta_origin_ok:
  assumes "c < length (channels h)" and "r \<in> set (delta h origin c)"
  shows "origin_ok (interfaces h) origin c r"
  using new_records_distribute_route [of r "clear_routes h" origin c] assms
  by (simp add: delta_def routes_at_clear_routes)

subsection \<open>Well-formed stores\<close>

text \<open>
  The references of a built store are in range, an interface sits in the lists of its node
  and of its channel at its offset, and a route record names its channel's own interface.
\<close>

lemma clear_routes_eq_nth:
  assumes "clear_routes h' = clear_routes h"
  shows "(channels h' ! c)\<lparr>c_routes := []\<rparr> = (channels h ! c)\<lparr>c_routes := []\<rparr>"
proof (cases "c < length (channels h)")
  case True
  have "channels (clear_routes h') ! c = channels (clear_routes h) ! c" using assms by simp
  moreover have "length (channels h') = length (channels h)"
    using assms by (rule clear_routes_eq_length)
  ultimately show ?thesis using True by (simp add: clear_routes_def)
next
  case False
  have "length (channels h') = length (channels h)"
    using assms by (rule clear_routes_eq_length)
  then have "channels h' ! c = channels h ! c"
    using False by (intro nth_beyond) simp_all
  then show ?thesis by simp
qed

lemma same_graph:
  assumes "clear_routes h' = clear_routes h"
  shows "nodes h' = nodes h" and "interfaces h' = interfaces h"
    and "length (channels h') = length (channels h)"
    and "c_interfaces (channels h' ! c) = c_interfaces (channels h ! c)"
    and "c_network (channels h' ! c) = c_network (channels h ! c)"
    and "c_id (channels h' ! c) = c_id (channels h ! c)"
    and "c_delay (channels h' ! c) = c_delay (channels h ! c)"
proof -
  show "nodes h' = nodes h" by (metis assms clear_routes_simps(1))
  show "interfaces h' = interfaces h" by (metis assms clear_routes_simps(2))
  show "length (channels h') = length (channels h)" using assms by (rule clear_routes_eq_length)
  from clear_routes_eq_nth [OF assms, of c]
  show "c_interfaces (channels h' ! c) = c_interfaces (channels h ! c)"
    and "c_network (channels h' ! c) = c_network (channels h ! c)"
    and "c_id (channels h' ! c) = c_id (channels h ! c)"
    and "c_delay (channels h' ! c) = c_delay (channels h ! c)"
    by (metis channel.select_convs(4) channel.update_convs(5) channel.surjective,
        metis channel.select_convs(2) channel.update_convs(5) channel.surjective,
        metis channel.select_convs(1) channel.update_convs(5) channel.surjective,
        metis channel.select_convs(3) channel.update_convs(5) channel.surjective)
qed


definition refs_ok :: "heap \<Rightarrow> bool" where
  "refs_ok h \<longleftrightarrow>
     (\<forall>i < length (interfaces h).
        i_node (interfaces h ! i) < length (nodes h) \<and>
        i_channel (interfaces h ! i) < length (channels h))"

definition node_interfaces_ok :: "heap \<Rightarrow> bool" where
  "node_interfaces_ok h \<longleftrightarrow>
     (\<forall>n < length (nodes h). \<forall>i \<in> set (n_interfaces (nodes h ! n)).
        i < length (interfaces h) \<and> i_node (interfaces h ! i) = n)"

definition channel_interfaces_ok :: "heap \<Rightarrow> bool" where
  "channel_interfaces_ok h \<longleftrightarrow>
     (\<forall>c < length (channels h). \<forall>k < length (c_interfaces (channels h ! c)).
        c_interfaces (channels h ! c) ! k < length (interfaces h) \<and>
        i_channel (interfaces h ! (c_interfaces (channels h ! c) ! k)) = c \<and>
        i_offset (interfaces h ! (c_interfaces (channels h ! c) ! k)) = k)"

definition networks_ok :: "heap \<Rightarrow> bool" where
  "networks_ok h \<longleftrightarrow> (\<forall>c < length (channels h). valid_network (c_network (channels h ! c)))"

definition route_refs_ok :: "heap \<Rightarrow> bool" where
  "route_refs_ok h \<longleftrightarrow>
     (\<forall>c < length (channels h). \<forall>r \<in> set (c_routes (channels h ! c)).
        fst r < length (channels h) \<and> fst r \<noteq> c \<and> 1 \<le> snd (snd r) \<and>
        fst (snd r) < length (interfaces h) \<and> i_channel (interfaces h ! fst (snd r)) = c)"

definition well_formed :: "heap \<Rightarrow> bool" where
  "well_formed h \<longleftrightarrow>
     refs_ok h \<and> node_interfaces_ok h \<and> channel_interfaces_ok h \<and> networks_ok h \<and> route_refs_ok h"

lemma well_formed_empty: "well_formed empty_heap"
  by (simp add: well_formed_def refs_ok_def node_interfaces_ok_def channel_interfaces_ok_def
      networks_ok_def route_refs_ok_def empty_heap_def)

lemma well_formed_Node_init:
  "well_formed h \<Longrightarrow> well_formed (fst (Node_init kind device component include_routes h))"
  unfolding well_formed_def
  apply (intro conjI)
      apply (auto simp add: refs_ok_def Node_init_def)[1]
     apply (auto simp add: node_interfaces_ok_def Node_init_def nth_append)[1]
    apply (simp add: channel_interfaces_ok_def Node_init_def)
   apply (simp add: networks_ok_def Node_init_def)
  apply (simp add: route_refs_ok_def Node_init_def)
  done

lemma well_formed_Node_new: "well_formed h \<Longrightarrow> well_formed (fst (Node_new kind h))"
  by (cases kind) (simp_all add: well_formed_Node_init)

lemma well_formed_Channel_init:
  "well_formed h \<Longrightarrow> valid_network network \<Longrightarrow>
   well_formed (fst (Channel_init ident network delay h))"
  unfolding well_formed_def
  apply (intro conjI)
      apply (auto simp add: refs_ok_def Channel_init_def)[1]
     apply (simp add: node_interfaces_ok_def Channel_init_def)
    apply (auto simp add: channel_interfaces_ok_def Channel_init_def nth_append)[1]
   apply (auto simp add: networks_ok_def Channel_init_def nth_append)[1]
  apply (fastforce simp add: route_refs_ok_def Channel_init_def nth_append less_Suc_eq)
  done


lemma Interface_init_fields:
  "nodes (fst (Interface_init h n c ident)) =
     (nodes h)[n := (nodes h ! n)\<lparr>n_interfaces := n_interfaces (nodes h ! n) @ [length (interfaces h)]\<rparr>]"
  "channels (fst (Interface_init h n c ident)) =
     (channels h)[c := (channels h ! c)\<lparr>c_interfaces := c_interfaces (channels h ! c) @ [length (interfaces h)]\<rparr>]"
  "interfaces (fst (Interface_init h n c ident)) =
     interfaces h @
       [\<lparr>i_node = n,
         i_id = (case ident of Some s \<Rightarrow> s
                 | None \<Rightarrow> ''i'' @ str_nat (length (n_interfaces (nodes h ! n)))),
         i_channel = c, i_offset = length (c_interfaces (channels h ! c))\<rparr>]"
  "snd (Interface_init h n c ident) = length (interfaces h)"
  by (simp_all add: Interface_init_def Node_add_interface_def Channel_add_interface_def Let_def
      split: option.split)

lemma well_formed_Interface_init:
  assumes wf: "well_formed h" and n: "n < length (nodes h)" and c: "c < length (channels h)"
  shows "well_formed (fst (Interface_init h n c ident))"
proof -
  let ?h = "fst (Interface_init h n c ident)"
  have r: "refs_ok h" and ni: "node_interfaces_ok h" and ci: "channel_interfaces_ok h"
    and nw: "networks_ok h" and rr: "route_refs_ok h"
    using wf by (simp_all add: well_formed_def)
  have 1: "refs_ok ?h"
    using r n c by (auto simp add: refs_ok_def Interface_init_fields nth_append)
  have 2: "node_interfaces_ok ?h"
    unfolding node_interfaces_ok_def
  proof (intro allI impI ballI)
    fix m i assume m: "m < length (nodes ?h)" and i: "i \<in> set (n_interfaces (nodes ?h ! m))"
    show "i < length (interfaces ?h) \<and> i_node (interfaces ?h ! i) = m"
    proof (cases "i = length (interfaces h)")
      case True
      have "m = n"
      proof (rule ccontr)
        assume "m \<noteq> n"
        then have "i \<in> set (n_interfaces (nodes h ! m))"
          using i m by (simp add: Interface_init_fields)
        then have "i < length (interfaces h)"
          using ni m by (auto simp add: node_interfaces_ok_def Interface_init_fields)
        then show False using True by simp
      qed
      then show ?thesis using True by (simp add: Interface_init_fields)
    next
      case False
      then have "i \<in> set (n_interfaces (nodes h ! m))"
        using i m by (cases "m = n") (auto simp add: Interface_init_fields)
      then have "i < length (interfaces h) \<and> i_node (interfaces h ! i) = m"
        using ni m by (auto simp add: node_interfaces_ok_def Interface_init_fields)
      then show ?thesis by (simp add: Interface_init_fields nth_append)
    qed
  qed
  have 3: "channel_interfaces_ok ?h"
    unfolding channel_interfaces_ok_def
  proof (intro allI impI)
    fix d k assume d: "d < length (channels ?h)" and k: "k < length (c_interfaces (channels ?h ! d))"
    let ?i = "c_interfaces (channels ?h ! d) ! k"
    show "?i < length (interfaces ?h) \<and> i_channel (interfaces ?h ! ?i) = d \<and>
          i_offset (interfaces ?h ! ?i) = k"
    proof (cases "d = c \<and> k = length (c_interfaces (channels h ! c))")
      case True
      then show ?thesis using c by (simp add: Interface_init_fields nth_append)
    next
      case False
      then have k': "k < length (c_interfaces (channels h ! d))"
        using k d c by (cases "d = c") (auto simp add: Interface_init_fields)
      then have eq: "?i = c_interfaces (channels h ! d) ! k"
        using d c by (cases "d = c") (auto simp add: Interface_init_fields nth_append)
      have "c_interfaces (channels h ! d) ! k < length (interfaces h) \<and>
            i_channel (interfaces h ! (c_interfaces (channels h ! d) ! k)) = d \<and>
            i_offset (interfaces h ! (c_interfaces (channels h ! d) ! k)) = k"
        using ci d k' by (simp add: channel_interfaces_ok_def Interface_init_fields)
      then show ?thesis by (simp add: eq) (simp add: Interface_init_fields nth_append)
    qed
  qed
  have 4: "networks_ok ?h"
    unfolding networks_ok_def
  proof (intro allI impI)
    fix d assume "d < length (channels ?h)"
    then show "valid_network (c_network (channels ?h ! d))"
      using nw by (cases "d = c") (auto simp add: networks_ok_def Interface_init_fields)
  qed
  have 5: "route_refs_ok ?h"
    unfolding route_refs_ok_def
  proof (intro allI impI ballI)
    fix d r assume d: "d < length (channels ?h)" and "r \<in> set (c_routes (channels ?h ! d))"
    then have "r \<in> set (c_routes (channels h ! d))"
      by (cases "d = c") (auto simp add: Interface_init_fields)
    then have "fst r < length (channels h) \<and> fst r \<noteq> d \<and> 1 \<le> snd (snd r) \<and>
        fst (snd r) < length (interfaces h) \<and> i_channel (interfaces h ! fst (snd r)) = d"
      using rr d by (auto simp add: route_refs_ok_def Interface_init_fields)
    then show "fst r < length (channels ?h) \<and> fst r \<noteq> d \<and> 1 \<le> snd (snd r) \<and>
        fst (snd r) < length (interfaces ?h) \<and> i_channel (interfaces ?h ! fst (snd r)) = d"
      by (simp add: Interface_init_fields nth_append)
  qed
  from 1 2 3 4 5 show ?thesis by (simp add: well_formed_def)
qed


lemma well_formed_distribute_routes:
  assumes wf: "well_formed h" and chs: "\<forall>origin \<in> set chs. origin < length (channels h)"
  shows "well_formed (distribute_routes h chs)"
proof -
  let ?h = "distribute_routes h chs"
  have cl: "clear_routes ?h = clear_routes h" by simp
  note sg = same_graph [OF cl]
  have r: "refs_ok h" and ni: "node_interfaces_ok h" and ci: "channel_interfaces_ok h"
    and nw: "networks_ok h" and rr: "route_refs_ok h"
    using wf by (simp_all add: well_formed_def)
  have 1: "refs_ok ?h" using r by (simp add: refs_ok_def sg)
  have 2: "node_interfaces_ok ?h" using ni by (simp add: node_interfaces_ok_def sg)
  have 3: "channel_interfaces_ok ?h" using ci by (simp add: channel_interfaces_ok_def sg)
  have 4: "networks_ok ?h" using nw by (simp add: networks_ok_def sg)
  have 5: "route_refs_ok ?h"
    unfolding route_refs_ok_def
  proof (intro allI impI ballI)
    fix c r
    assume "c < length (channels ?h)" and r: "r \<in> set (c_routes (channels ?h ! c))"
    then have c: "c < length (channels h)" by simp
    from r have "r \<in> set (routes_at h c) \<or> (\<exists>origin \<in> set chs. r \<in> set (delta h origin c))"
      using routes_at_distribute_routes [OF c, of chs] by (auto simp add: routes_at_def)
    then have "fst r < length (channels h) \<and> fst r \<noteq> c \<and> 1 \<le> snd (snd r) \<and>
        fst (snd r) < length (interfaces h) \<and> i_channel (interfaces h ! fst (snd r)) = c"
    proof
      assume "r \<in> set (routes_at h c)"
      then show ?thesis using rr c by (auto simp add: route_refs_ok_def routes_at_def)
    next
      assume "\<exists>origin \<in> set chs. r \<in> set (delta h origin c)"
      then obtain origin where o: "origin \<in> set chs" and "r \<in> set (delta h origin c)" by blast
      from delta_origin_ok [OF c this(2)] o chs show ?thesis
        by (auto simp add: origin_ok_def)
    qed
    then show "fst r < length (channels ?h) \<and> fst r \<noteq> c \<and> 1 \<le> snd (snd r) \<and>
        fst (snd r) < length (interfaces ?h) \<and> i_channel (interfaces ?h ! fst (snd r)) = c"
      by (simp add: sg)
  qed
  from 1 2 3 4 5 show ?thesis by (simp add: well_formed_def)
qed

lemma well_formed_exec: "well_formed h \<Longrightarrow> well_formed (exec cmd h)"
proof (cases cmd)
  case (NewNode kind)
  then show "well_formed h \<Longrightarrow> well_formed (exec cmd h)"
    by (simp add: well_formed_Node_new)
next
  case (NewChannel ident network delay)
  then show "well_formed h \<Longrightarrow> well_formed (exec cmd h)"
    by (simp add: well_formed_Channel_init)
next
  case (NewInterface n c ident)
  then show "well_formed h \<Longrightarrow> well_formed (exec cmd h)"
    by (simp add: well_formed_Interface_init)
next
  case (Distribute chs)
  then show "well_formed h \<Longrightarrow> well_formed (exec cmd h)"
    by (simp add: well_formed_distribute_routes list_all_iff)
qed

lemma well_formed_build: "well_formed (build cmds)"
  unfolding build_def
proof (rule fold_invariant [where I = well_formed])
  show "well_formed empty_heap" by (rule well_formed_empty)
qed (rule well_formed_exec)

lemma build_snoc: "build (cmds @ [cmd]) = exec cmd (build cmds)"
  by (simp add: build_def)

subsection \<open>The chain of three nodes\<close>

text \<open>
  Nodes X, Y and Z, a channel between X and Y and one between Y and Z, their blocks
  taken from the pool of \<^verbatim>\<open>10.0.0.0/24\<close> with sub-prefix 30.
\<close>

definition chain3 :: "error + heap" where
  "chain3 =
     (case NetworkPool_init (167772160, 24) 30 of
        Inl e \<Rightarrow> Inl e
      | Inr pool \<Rightarrow>
          (let (h, x) = Node_new (NodeAccess 0) empty_heap;
               (h, y) = Node_new (NodeAccess 1) h;
               (h, z) = Node_new (NodeAccess 2) h
           in (case gen_network pool of
                 Inl e \<Rightarrow> Inl e
               | Inr (net1, pool) \<Rightarrow>
                   (let (h, c1) = Channel_auto h x y net1 0 None None
                    in (case gen_network pool of
                          Inl e \<Rightarrow> Inl e
                        | Inr (net2, pool) \<Rightarrow>
                            (let (h, c2) = Channel_auto h y z net2 0 None None
                             in Inr h))))))"

definition chain3_heap :: heap where
  "chain3_heap =
     \<lparr>nodes =
        [\<lparr>n_kind = NodeAccess 0, n_device = ''router'', n_component = ''simple-router'',
          n_interfaces = [0], n_include_routes = True\<rparr>,
         \<lparr>n_kind = NodeAccess 1, n_device = ''router'', n_component = ''simple-router'',
          n_interfaces = [1, 2], n_include_routes = True\<rparr>,
         \<lparr>n_kind = NodeAccess 2, n_device = ''router'', n_component = ''simple-router'',
          n_interfaces = [3], n_include_routes = True\<rparr>],
      channels =
        [\<lparr>c_id = ''c_acc0_acc1'', c_network = (167772160, 30), c_delay = 0,
          c_interfaces = [0, 1], c_routes = []\<rparr>,
         \<lparr>c_id = ''c_acc1_acc2'', c_network = (167772164, 30), c_delay = 0,
          c_interfaces = [2, 3], c_routes = []\<rparr>],
      interfaces =
        [\<lparr>i_node = 0, i_id = ''i0'', i_channel = 0, i_offset = 0\<rparr>,
         \<lparr>i_node = 1, i_id = ''i0'', i_channel = 0, i_offset = 1\<rparr>,
         \<lparr>i_node = 1, i_id = ''i1'', i_channel = 1, i_offset = 0\<rparr>,
         \<lparr>i_node = 2, i_id = ''i0'', i_channel = 1, i_offset = 1\<rparr>]\<rparr>"

definition chain3_topology :: topology where
  "chain3_topology =
     \<lparr>backbone_nodes = [], aggregation_nodes = [], access_nodes = [0, 1, 2],
      uw_nodes = [], external_nodes = []\<rparr>"

definition chain3_routed :: heap where
  "chain3_routed =
     chain3_heap\<lparr>channels :=
        [\<lparr>c_id = ''c_acc0_acc1'', c_network = (167772160, 30), c_delay = 0,
          c_interfaces = [0, 1], c_routes = [(1, 1, 1)]\<rparr>,
         \<lparr>c_id = ''c_acc1_acc2'', c_network = (167772164, 30), c_delay = 0,
          c_interfaces = [2, 3], c_routes = [(0, 2, 1)]\<rparr>]\<rparr>"

definition chain3_commands :: "command list" where
  "chain3_commands =
     [NewNode (NodeAccess 0), NewNode (NodeAccess 1), NewNode (NodeAccess 2),
      NewChannel ''c_acc0_acc1'' (167772160, 30) 0,
      NewInterface 0 0 None, NewInterface 1 0 None,
      NewChannel ''c_acc1_acc2'' (167772164, 30) 0,
      NewInterface 1 1 None, NewInterface 2 1 None]"

lemmas net_simps = prefixlen_def network_address_def

lemmas build_simps = Node_init_def Channel_auto_def Channel_init_def Interface_init_def
  Node_add_interface_def Channel_add_interface_def empty_heap_def str_int_def str_nat.simps digit_def

lemmas bfs_simps = distribute_routes_def distribute_route_def bfs_loop.simps expand_def visit_def
  add_route_def

lemmas table_simps = get_routes_def route_step_def get_simplified_routes_def simplify_def

lemmas dump_simps = Node_dump_def dump_routes_def dump_route_def Interface_dump_def get_ip_def
  str_network_def str_address_def getitem_eq str_nat.simps digit_def str_int_def

lemma gen_network_upt:
  "i < n \<Longrightarrow> gen_network \<lparr>free_networks = map f [i..<n]\<rparr> =
     Inr (f i, \<lparr>free_networks = map f [Suc i..<n]\<rparr>)"
  by (simp add: gen_network_def upt_conv_Cons)

lemma valid_chain3_networks:
  "valid_network (167772160, 24)" "valid_network (167772160, 30)" "valid_network (167772164, 30)"
  by (simp_all add: valid_network_iff net_simps)

lemma chain3_eval: "chain3 = Inr chain3_heap"
  by (simp add: chain3_def chain3_heap_def NetworkPool_init_def subnets_eq valid_chain3_networks
      net_simps gen_network_upt build_simps)

lemma chain3_build: "build chain3_commands = chain3_heap"
  by (simp add: build_def chain3_commands_def chain3_heap_def valid_chain3_networks build_simps)

lemma chain3_distribute_01: "distribute_routes chain3_heap [0, 1] = chain3_routed"
  by (simp add: chain3_heap_def chain3_routed_def bfs_simps)

lemma chain3_distribute_10: "distribute_routes chain3_heap [1, 0] = chain3_routed"
  by (simp add: chain3_heap_def chain3_routed_def bfs_simps)

lemma chain3_channels: "get_channels chain3_heap chain3_topology = {0, 1}"
  by (auto simp add: get_channels_def get_nodes_def chain3_heap_def chain3_topology_def)

lemma enumerates_pair:
  assumes "enumerates chs {a, b}" and "a \<noteq> b"
  shows "chs = [a, b] \<or> chs = [b, a]"
proof -
  have d: "distinct chs" and s: "set chs = {a, b}" using assms by (simp_all add: enumerates_def)
  have "length chs = card {a, b}" using d s by (metis distinct_card)
  then have "length chs = 2" using assms(2) by simp
  then obtain x y where chs: "chs = [x, y]"
    by (cases chs; cases "tl chs") auto
  with s d show ?thesis by (auto simp add: doubleton_eq_iff)
qed

lemma chain3_dump_routes:
  "dump_routes chain3_routed 0 =
     Inr [\<lparr>r_network = ''10.0.0.4/30'', r_gateway = ''10.0.0.2'', r_metric = 1\<rparr>]"
  "dump_routes chain3_routed 1 = Inr []"
  "dump_routes chain3_routed 2 =
     Inr [\<lparr>r_network = ''10.0.0.0/30'', r_gateway = ''10.0.0.5'', r_metric = 1\<rparr>]"
  by (simp_all add: chain3_heap_def chain3_routed_def table_simps supernet_eq valid_chain3_networks
      net_simps dump_simps)


section \<open>Claims\<close>

text \<open>
  C1 (round-trip scenario), as the specification states it: after \<^verbatim>\<open>distribute_routes()\<close>
  Y's dump has one entry for each of the two networks, and X's dump has one entry for Z's
  network with metric 2 and X's own interface as gateway. The code gives something else:
  Y's route list is empty and X's entry has metric 1 and Y's address as gateway.
\<close>

theorem round_trip_counterexample:
  "chain3 = Inr chain3_heap \<and>
   dump_routes (distribute_routes chain3_heap [0, 1]) 1 = Inr [] \<and>
   dump_routes (distribute_routes chain3_heap [0, 1]) 0 =
     Inr [\<lparr>r_network = ''10.0.0.4/30'', r_gateway = ''10.0.0.2'', r_metric = 1\<rparr>]"
  by (simp only: chain3_eval chain3_distribute_01 chain3_dump_routes simp_thms)

text \<open>
  C1, amended: in the scenario, whatever the order in which the channels are enumerated,
  Y (attached to both channels) emits no route, X emits exactly one route, to the network
  \<^verbatim>\<open>10.0.0.4/30\<close> of the channel between Y and Z, with metric 1 and gateway \<^verbatim>\<open>10.0.0.2\<close>,
  the address of Y's interface on the channel between X and Y, and Z emits exactly one
  route, to \<^verbatim>\<open>10.0.0.0/30\<close>, with metric 1 and gateway \<^verbatim>\<open>10.0.0.5\<close>.
\<close>

theorem round_trip:
  assumes "chain3 = Inr h" and "enumerates chs (get_channels h chain3_topology)"
  shows "dump_routes (distribute_routes h chs) 1 = Inr [] \<and>
         dump_routes (distribute_routes h chs) 0 =
           Inr [\<lparr>r_network = ''10.0.0.4/30'', r_gateway = ''10.0.0.2'', r_metric = 1\<rparr>] \<and>
         dump_routes (distribute_routes h chs) 2 =
           Inr [\<lparr>r_network = ''10.0.0.0/30'', r_gateway = ''10.0.0.5'', r_metric = 1\<rparr>]"
proof -
  from assms(1) have h: "h = chain3_heap" by (simp add: chain3_eval)
  with assms(2) have "enumerates chs {0, 1}" by (simp add: chain3_channels)
  then have "chs = [0, 1] \<or> chs = [1, 0]" by (rule enumerates_pair) simp
  then have "distribute_routes h chs = chain3_routed"
    using h chain3_distribute_01 chain3_distribute_10 by auto
  then show ?thesis by (simp only: chain3_dump_routes simp_thms)
qed

theorem round_trip_witness:
  "chain3 = Inr chain3_heap \<and> enumerates [0, 1] (get_channels chain3_heap chain3_topology) \<and>
   dump_routes (distribute_routes chain3_heap [0, 1]) 1 = Inr [] \<and>
   dump_routes (distribute_routes chain3_heap [0, 1]) 0 =
     Inr [\<lparr>r_network = ''10.0.0.4/30'', r_gateway = ''10.0.0.2'', r_metric = 1\<rparr>] \<and>
   dump_routes (distribute_routes chain3_heap [0, 1]) 2 =
     Inr [\<lparr>r_network = ''10.0.0.0/30'', r_gateway = ''10.0.0.5'', r_metric = 1\<rparr>]"
proof -
  have e: "enumerates [0, 1] (get_channels chain3_heap chain3_topology)"
    by (simp add: chain3_channels enumerates_def)
  from round_trip [OF chain3_eval e] chain3_eval e show ?thesis by simp
qed

text \<open>
  C10: in every store built by constructor calls and route distributions, every route
  record has a distance of at least 1 and no channel holds a record whose origin is the
  channel itself.
\<close>

theorem route_records_foreign_and_positive:
  assumes "c < length (channels (build cmds))"
    and "(origin, gw_interface, dist) \<in> set (c_routes (channels (build cmds) ! c))"
  shows "1 \<le> dist \<and> origin \<noteq> c"
proof -
  have "route_refs_ok (build cmds)"
    using well_formed_build [of cmds] by (simp add: well_formed_def)
  with assms show ?thesis by (fastforce simp add: route_refs_ok_def)
qed

lemma chain3_build_routed: "build (chain3_commands @ [Distribute [0, 1]]) = chain3_routed"
proof -
  have "build (chain3_commands @ [Distribute [0, 1]]) = exec (Distribute [0, 1]) (build chain3_commands)"
    by (simp add: build_def)
  also have "\<dots> = distribute_routes chain3_heap [0, 1]"
    by (simp add: chain3_build) (simp add: chain3_heap_def)
  finally show ?thesis by (simp only: chain3_distribute_01)
qed

theorem route_records_foreign_and_positive_witness:
  "0 < length (channels (build (chain3_commands @ [Distribute [0, 1]]))) \<and>
   (1, 1, 1) \<in> set (c_routes (channels (build (chain3_commands @ [Distribute [0, 1]])) ! 0)) \<and>
   (1::nat) \<le> 1 \<and> (1::nat) \<noteq> 0"
proof -
  have a: "0 < length (channels (build (chain3_commands @ [Distribute [0, 1]])))"
    by (simp only: chain3_build_routed) (simp add: chain3_routed_def)
  have b: "(1, 1, 1) \<in> set (c_routes (channels (build (chain3_commands @ [Distribute [0, 1]])) ! 0))"
    by (simp only: chain3_build_routed) (simp add: chain3_routed_def)
  from route_records_foreign_and_positive [OF a b] a b show ?thesis by simp
qed

subsection \<open>Resolving routes twice\<close>

text \<open>A record is covered by a table that already holds a route to its origin that is no longer.\<close>

definition covered :: "(nat \<times> route) list \<Rightarrow> route_record \<Rightarrow> bool" where
  "covered routes r \<longleftrightarrow>
     (case map_of routes (fst r) of None \<Rightarrow> False | Some (i, g, d) \<Rightarrow> d \<le> snd (snd r))"

lemma route_step_covered: "covered routes r \<Longrightarrow> route_step interface r routes = routes"
  by (cases r) (auto simp add: covered_def route_step_def split: option.splits)

lemma covered_route_step: "covered (route_step interface r routes) r"
  by (cases r) (auto simp add: covered_def route_step_def update_conv' split: option.splits)

lemma covered_mono: "covered routes r \<Longrightarrow> covered (route_step interface r' routes) r"
  by (cases r; cases r') (auto simp add: covered_def route_step_def update_conv' split: option.splits)

lemma covered_fold_mono:
  "covered routes r \<Longrightarrow> covered (fold (route_step interface) rs routes) r"
  by (induction rs arbitrary: routes) (simp_all add: covered_mono)

lemma covered_fold:
  "r \<in> set rs \<Longrightarrow> covered (fold (route_step interface) rs routes) r"
proof (induction rs arbitrary: routes)
  case Nil
  then show ?case by simp
next
  case (Cons a rs)
  show ?case
  proof (cases "r = a")
    case True
    then show ?thesis by (simp add: covered_fold_mono covered_route_step)
  next
    case False
    then show ?thesis using Cons by simp
  qed
qed

lemma fold_route_step_covered:
  "\<forall>r \<in> set rs. covered routes r \<Longrightarrow> fold (route_step interface) rs routes = routes"
  by (induction rs) (simp_all add: route_step_covered)

lemma fold_route_step_repeat:
  assumes "set ds \<subseteq> set rs"
  shows "fold (route_step interface) (rs @ ds) routes = fold (route_step interface) rs routes"
proof -
  have "\<forall>r \<in> set ds. covered (fold (route_step interface) rs routes) r"
    using assms by (auto intro: covered_fold)
  then show ?thesis by (simp add: fold_route_step_covered)
qed

lemma routes_at_beyond:
  assumes "clear_routes h' = clear_routes h" and "\<not> c < length (channels h)"
  shows "routes_at h' c = routes_at h c"
proof -
  have "length (channels h') = length (channels h)" using assms(1) by (rule clear_routes_eq_length)
  then have "channels h' ! c = channels h ! c" using assms(2) by (intro nth_beyond) simp_all
  then show ?thesis by (simp add: routes_at_def)
qed

lemma get_routes_distribute_again:
  assumes "set chs' \<subseteq> set chs"
  shows "get_routes (distribute_routes (distribute_routes h chs) chs') n =
         get_routes (distribute_routes h chs) n"
proof -
  let ?h1 = "distribute_routes h chs" and ?h2 = "distribute_routes (distribute_routes h chs) chs'"
  have cl: "clear_routes ?h2 = clear_routes ?h1" by simp
  note sg = same_graph [OF cl]
  have step: "fold (route_step interface) (routes_at ?h2 c) routes =
              fold (route_step interface) (routes_at ?h1 c) routes" for interface c routes
  proof (cases "c < length (channels h)")
    case True
    let ?D = "concat (map (\<lambda>origin. delta h origin c) chs)"
    let ?D' = "concat (map (\<lambda>origin. delta h origin c) chs')"
    have 1: "routes_at ?h1 c = routes_at h c @ ?D"
      using True by (rule routes_at_distribute_routes)
    have "delta ?h1 = delta h" by (simp add: delta_def fun_eq_iff)
    then have 2: "routes_at ?h2 c = routes_at ?h1 c @ ?D'"
      using True routes_at_distribute_routes [of c ?h1 chs'] by simp
    have "set ?D' \<subseteq> set ?D" using assms by auto
    then show ?thesis unfolding 2 by (intro fold_route_step_repeat) (auto simp add: 1)
  next
    case False
    then have "routes_at ?h2 c = routes_at ?h1 c"
      by (intro routes_at_beyond [OF cl]) simp
    then show ?thesis by simp
  qed
  have "fold (route_step interface) (c_routes (channels ?h2 ! c)) =
        fold (route_step interface) (c_routes (channels ?h1 ! c))" for interface c
    by (rule ext) (rule step [unfolded routes_at_def])
  then show ?thesis
    unfolding get_routes_def sg by simp
qed

lemma same_graph_get_ip:
  assumes "clear_routes h' = clear_routes h"
  shows "get_ip h' i = get_ip h i"
  by (simp add: get_ip_def same_graph [OF assms])

lemma same_graph_Interface_dump:
  assumes "clear_routes h' = clear_routes h"
  shows "Interface_dump h' = Interface_dump h"
  unfolding Interface_dump_def fun_eq_iff same_graph [OF assms] same_graph_get_ip [OF assms]
  by simp

lemma same_graph_dump_route:
  assumes "clear_routes h' = clear_routes h"
  shows "dump_route h' = dump_route h"
  unfolding dump_route_def fun_eq_iff same_graph_get_ip [OF assms]
  by simp

lemma same_routes_Node_dump:
  assumes "clear_routes h' = clear_routes h" and "get_routes h' n = get_routes h n"
  shows "get_simplified_routes h' n = get_simplified_routes h n"
    and "dump_routes h' n = dump_routes h n"
    and "Node_dump h' n = Node_dump h n"
proof -
  show 1: "get_simplified_routes h' n = get_simplified_routes h n"
    by (simp add: get_simplified_routes_def assms(2) same_graph [OF assms(1)])
  show 2: "dump_routes h' n = dump_routes h n"
    by (simp add: dump_routes_def 1 same_graph_dump_route [OF assms(1)])
  have n: "nodes h' = nodes h" by (rule same_graph(1) [OF assms(1)])
  show "Node_dump h' n = Node_dump h n"
    unfolding Node_dump_def 2 n same_graph_Interface_dump [OF assms(1)] ..
qed

text \<open>
  C5 (idempotence): a second \<^verbatim>\<open>distribute_routes()\<close> on the same graph, over the same
  channels in any enumeration order, leaves the resolved routes, the simplified routes and
  the dump of every node as they were after the first.
\<close>

theorem distribute_routes_idempotent:
  assumes "enumerates chs S" and "enumerates chs' S"
  shows "get_routes (distribute_routes (distribute_routes h chs) chs') n =
           get_routes (distribute_routes h chs) n \<and>
         get_simplified_routes (distribute_routes (distribute_routes h chs) chs') n =
           get_simplified_routes (distribute_routes h chs) n \<and>
         Node_dump (distribute_routes (distribute_routes h chs) chs') n =
           Node_dump (distribute_routes h chs) n"
proof -
  have "set chs' \<subseteq> set chs" using assms by (simp add: enumerates_def)
  then have g: "get_routes (distribute_routes (distribute_routes h chs) chs') n =
           get_routes (distribute_routes h chs) n"
    by (rule get_routes_distribute_again)
  have cl: "clear_routes (distribute_routes (distribute_routes h chs) chs') =
            clear_routes (distribute_routes h chs)" by simp
  show ?thesis
    by (intro conjI) (rule g, rule same_routes_Node_dump(1) [OF cl g],
        rule same_routes_Node_dump(3) [OF cl g])
qed

lemma enumerates_01: "enumerates [0, 1] {0::nat, 1}"
  by (simp add: enumerates_def)

lemma enumerates_10: "enumerates [1, 0] {0::nat, 1}"
  by (simp add: enumerates_def insert_commute)

lemma chain3_get_routes_0: "get_routes (distribute_routes chain3_heap [0, 1]) 0 = [(1, 0, 1, 1)]"
  by (simp only: chain3_distribute_01) (simp add: chain3_routed_def chain3_heap_def table_simps)

theorem distribute_routes_idempotent_witness:
  "enumerates [0, 1] {0, 1} \<and> enumerates [1, 0] {0, 1} \<and>
   get_routes (distribute_routes (distribute_routes chain3_heap [0, 1]) [1, 0]) 0 =
     get_routes (distribute_routes chain3_heap [0, 1]) 0 \<and>
   get_routes (distribute_routes chain3_heap [0, 1]) 0 = [(1, 0, 1, 1)] \<and>
   get_simplified_routes (distribute_routes (distribute_routes chain3_heap [0, 1]) [1, 0]) 0 =
     get_simplified_routes (distribute_routes chain3_heap [0, 1]) 0 \<and>
   Node_dump (distribute_routes (distribute_routes chain3_heap [0, 1]) [1, 0]) 0 =
     Node_dump (distribute_routes chain3_heap [0, 1]) 0"
  using distribute_routes_idempotent [OF enumerates_01 enumerates_10, of chain3_heap 0]
    enumerates_01 enumerates_10 chain3_get_routes_0
  by blast

subsection \<open>Before any distribution\<close>

fun is_distribute :: "command \<Rightarrow> bool" where
  "is_distribute (Distribute chs) = True"
| "is_distribute _ = False"

definition no_routes :: "heap \<Rightarrow> bool" where
  "no_routes h \<longleftrightarrow> (\<forall>c < length (channels h). c_routes (channels h ! c) = [])"

lemma no_routes_exec:
  assumes "no_routes h" and "\<not> is_distribute cmd"
  shows "no_routes (exec cmd h)"
proof (cases cmd)
  case (NewNode kind)
  then show ?thesis using assms by (cases kind) (simp_all add: no_routes_def Node_init_def)
next
  case (NewChannel ident network delay)
  then show ?thesis using assms by (auto simp add: no_routes_def Channel_init_def nth_append)
next
  case (NewInterface n c ident)
  then show ?thesis
    using assms by (auto simp add: no_routes_def Interface_init_fields nth_list_update)
next
  case (Distribute chs)
  then show ?thesis using assms by simp
qed

lemma no_routes_fold:
  "no_routes h \<Longrightarrow> list_all (\<lambda>cmd. \<not> is_distribute cmd) cmds \<Longrightarrow> no_routes (fold exec cmds h)"
  by (induction cmds arbitrary: h) (simp_all add: no_routes_exec)

lemma no_routes_build:
  "list_all (\<lambda>cmd. \<not> is_distribute cmd) cmds \<Longrightarrow> no_routes (build cmds)"
  unfolding build_def by (rule no_routes_fold) (simp add: no_routes_def empty_heap_def)

lemma fold_fold_empty:
  "\<forall>x \<in> set xs. L x = [] \<Longrightarrow> fold (\<lambda>x. fold (f x) (L x)) xs s = s"
  by (induction xs) simp_all

lemma get_routes_no_routes:
  assumes "well_formed h" and "no_routes h" and "n < length (nodes h)"
  shows "get_routes h n = []"
  unfolding get_routes_def
proof (rule fold_fold_empty, rule ballI)
  fix i assume "i \<in> set (n_interfaces (nodes h ! n))"
  then have "i < length (interfaces h)"
    using assms(1,3) by (auto simp add: well_formed_def node_interfaces_ok_def)
  then have "i_channel (interfaces h ! i) < length (channels h)"
    using assms(1) by (auto simp add: well_formed_def refs_ok_def)
  then show "c_routes (channels h ! i_channel (interfaces h ! i)) = []"
    using assms(2) by (simp add: no_routes_def)
qed

lemma simplify_Nil: "simplify [] = []"
  by (simp add: simplify_def)

text \<open>
  C8, as the specification states it: a query before \<^verbatim>\<open>distribute_routes()\<close> fails. In the
  chain of three nodes, before any distribution, Y's routes are the empty table and Y's dump
  is a result with an empty route list.
\<close>

theorem query_before_distribution_counterexample:
  "chain3 = Inr chain3_heap \<and>
   get_routes chain3_heap 1 = [] \<and>
   Node_dump chain3_heap 1 =
     Inr \<lparr>nd_id = ''access1'', nd_device = ''router'', nd_component = ''simple-router'',
          nd_interfaces =
            [\<lparr>d_id = ''i0'', d_channel = ''c_acc0_acc1'', d_ip = ''10.0.0.2/30''\<rparr>,
             \<lparr>d_id = ''i1'', d_channel = ''c_acc1_acc2'', d_ip = ''10.0.0.5/30''\<rparr>],
          nd_routes = Some []\<rparr>"
  by (simp add: chain3_eval)
     (simp add: chain3_heap_def table_simps supernet_eq valid_chain3_networks net_simps dump_simps)

lemma map_result_Inl: "map_result f xs = Inl e \<Longrightarrow> \<exists>x \<in> set xs. f x = Inl e"
  by (induction xs) (auto split: sum.splits)

lemma get_ip_Inl: "get_ip h i = Inl e \<Longrightarrow> e = IndexError"
  by (auto simp add: get_ip_def getitem_def Let_def split: if_splits)

lemma Interface_dump_Inl: "Interface_dump h i = Inl e \<Longrightarrow> get_ip h i = Inl e"
  by (auto simp add: Interface_dump_def split: sum.splits)

text \<open>
  C8, amended: the code has no such error. In a store on which no route distribution has
  run, the routes of every node are the empty table and so are its simplified routes;
  \<^verbatim>\<open>Node.dump\<close> returns the record of the node with the dumps of its interfaces and an empty
  route list (no route list for a node that does not include routes). The only error
  that \<^verbatim>\<open>Node.dump\<close> can raise is the IndexError of \<^verbatim>\<open>get_ip\<close> for an interface of the node
  whose offset lies beyond the block of its channel.
\<close>

theorem query_before_distribution:
  assumes "list_all (\<lambda>cmd. \<not> is_distribute cmd) cmds" and "n < length (nodes (build cmds))"
  shows "get_routes (build cmds) n = [] \<and> get_simplified_routes (build cmds) n = [] \<and>
         dump_routes (build cmds) n = Inr [] \<and>
         Node_dump (build cmds) n =
           (case map_result (Interface_dump (build cmds)) (n_interfaces (nodes (build cmds) ! n)) of
              Inl e \<Rightarrow> Inl e
            | Inr ifs \<Rightarrow>
                Inr \<lparr>nd_id = get_id (n_kind (nodes (build cmds) ! n)),
                     nd_device = n_device (nodes (build cmds) ! n),
                     nd_component = n_component (nodes (build cmds) ! n),
                     nd_interfaces = ifs,
                     nd_routes = (if n_include_routes (nodes (build cmds) ! n) then Some [] else None)\<rparr>) \<and>
         (\<forall>e. Node_dump (build cmds) n = Inl e \<longrightarrow>
            e = IndexError \<and>
            (\<exists>i \<in> set (n_interfaces (nodes (build cmds) ! n)). get_ip (build cmds) i = Inl IndexError))"
proof -
  let ?h = "build cmds"
  have g: "get_routes ?h n = []"
    using well_formed_build no_routes_build [OF assms(1)] assms(2) by (rule get_routes_no_routes)
  then have s: "get_simplified_routes ?h n = []" and d: "dump_routes ?h n = Inr []"
    by (simp_all add: get_simplified_routes_def simplify_Nil dump_routes_def)
  have n: "Node_dump ?h n =
           (case map_result (Interface_dump ?h) (n_interfaces (nodes ?h ! n)) of
              Inl e \<Rightarrow> Inl e
            | Inr ifs \<Rightarrow>
                Inr \<lparr>nd_id = get_id (n_kind (nodes ?h ! n)), nd_device = n_device (nodes ?h ! n),
                     nd_component = n_component (nodes ?h ! n), nd_interfaces = ifs,
                     nd_routes = (if n_include_routes (nodes ?h ! n) then Some [] else None)\<rparr>)"
    by (simp add: Node_dump_def d split: sum.splits)
  have e: "e = IndexError \<and> (\<exists>i \<in> set (n_interfaces (nodes ?h ! n)). get_ip ?h i = Inl IndexError)"
    if "Node_dump ?h n = Inl e" for e
  proof -
    from that have "map_result (Interface_dump ?h) (n_interfaces (nodes ?h ! n)) = Inl e"
      unfolding n by (simp split: sum.splits)
    then obtain i where i: "i \<in> set (n_interfaces (nodes ?h ! n))" and "Interface_dump ?h i = Inl e"
      using map_result_Inl by blast
    then have ip: "get_ip ?h i = Inl e" by (simp add: Interface_dump_Inl)
    then have "e = IndexError" by (rule get_ip_Inl)
    with i ip show ?thesis by blast
  qed
  from g s d n e show ?thesis by blast
qed

theorem query_before_distribution_witness:
  "list_all (\<lambda>cmd. \<not> is_distribute cmd) chain3_commands \<and>
   1 < length (nodes (build chain3_commands)) \<and>
   get_routes (build chain3_commands) 1 = [] \<and>
   get_simplified_routes (build chain3_commands) 1 = [] \<and>
   dump_routes (build chain3_commands) 1 = Inr [] \<and>
   Node_dump (build chain3_commands) 1 =
     Inr \<lparr>nd_id = ''access1'', nd_device = ''router'', nd_component = ''simple-router'',
          nd_interfaces =
            [\<lparr>d_id = ''i0'', d_channel = ''c_acc0_acc1'', d_ip = ''10.0.0.2/30''\<rparr>,
             \<lparr>d_id = ''i1'', d_channel = ''c_acc1_acc2'', d_ip = ''10.0.0.5/30''\<rparr>],
          nd_routes = Some []\<rparr>"
proof -
  have a: "list_all (\<lambda>cmd. \<not> is_distribute cmd) chain3_commands"
    by (simp add: chain3_commands_def)
  have b: "1 < length (nodes (build chain3_commands))"
    by (simp only: chain3_build) (simp add: chain3_heap_def)
  have c: "(case map_result (Interface_dump (build chain3_commands))
                  (n_interfaces (nodes (build chain3_commands) ! 1)) of
              Inl e \<Rightarrow> Inl e
            | Inr ifs \<Rightarrow>
                Inr \<lparr>nd_id = get_id (n_kind (nodes (build chain3_commands) ! 1)),
                     nd_device = n_device (nodes (build chain3_commands) ! 1),
                     nd_component = n_component (nodes (build chain3_commands) ! 1),
                     nd_interfaces = ifs,
                     nd_routes = (if n_include_routes (nodes (build chain3_commands) ! 1)
                                  then Some [] else None)\<rparr>) =
     Inr \<lparr>nd_id = ''access1'', nd_device = ''router'', nd_component = ''simple-router'',
          nd_interfaces =
            [\<lparr>d_id = ''i0'', d_channel = ''c_acc0_acc1'', d_ip = ''10.0.0.2/30''\<rparr>,
             \<lparr>d_id = ''i1'', d_channel = ''c_acc1_acc2'', d_ip = ''10.0.0.5/30''\<rparr>],
          nd_routes = Some []\<rparr>"
    by (simp only: chain3_build)
       (simp add: chain3_heap_def valid_chain3_networks net_simps dump_simps)
  from query_before_distribution [OF a b] a b c show ?thesis by metis
qed

subsection \<open>Channels joined through a node\<close>

text \<open>
  Node \<open>n\<close> is attached to channel \<open>c\<close> when one of its interfaces is on \<open>c\<close>; two channels
  are joined when some node is attached to both.
\<close>

definition attached :: "heap \<Rightarrow> nat \<Rightarrow> nat \<Rightarrow> bool" where
  "attached h n c \<longleftrightarrow> list_ex (\<lambda>i. i_node i = n \<and> i_channel i = c) (interfaces h)"

definition shared_nodes :: "heap \<Rightarrow> nat \<Rightarrow> nat \<Rightarrow> nat set" where
  "shared_nodes h c c' =
     set (filter (\<lambda>n. attached h n c \<and> attached h n c') (map i_node (interfaces h)))"

definition joined :: "heap \<Rightarrow> nat \<Rightarrow> nat \<Rightarrow> bool" where
  "joined h c c' \<longleftrightarrow> shared_nodes h c c' \<noteq> {}"

lemma attached_iff:
  "attached h n c \<longleftrightarrow>
     (\<exists>i < length (interfaces h). i_node (interfaces h ! i) = n \<and> i_channel (interfaces h ! i) = c)"
  unfolding attached_def list_ex_iff by (metis in_set_conv_nth)

lemma shared_nodes_iff: "n \<in> shared_nodes h c c' \<longleftrightarrow> attached h n c \<and> attached h n c'"
  by (auto simp add: shared_nodes_def attached_def list_ex_iff)

lemma joined_iff: "joined h c c' \<longleftrightarrow> (\<exists>n. attached h n c \<and> attached h n c')"
  using shared_nodes_iff [of _ h c c'] by (auto simp add: joined_def)

text \<open>Every interface of a built store is in the list of its node and in that of its channel.\<close>

definition members_ok :: "heap \<Rightarrow> bool" where
  "members_ok h \<longleftrightarrow>
     (\<forall>i < length (interfaces h).
        i \<in> set (n_interfaces (nodes h ! i_node (interfaces h ! i))) \<and>
        i \<in> set (c_interfaces (channels h ! i_channel (interfaces h ! i))))"

lemma members_ok_exec:
  assumes "members_ok h" and wf: "well_formed h"
  shows "members_ok (exec cmd h)"
proof (cases cmd)
  case (NewNode kind)
  have r: "refs_ok h" using wf by (simp add: well_formed_def)
  have "members_ok (fst (Node_init kind' device component include_routes h))"
    for kind' device component include_routes
    using assms(1) r by (auto simp add: members_ok_def refs_ok_def Node_init_def nth_append)
  then show ?thesis using NewNode by (cases kind) simp_all
next
  case (NewChannel ident network delay)
  have r: "refs_ok h" using wf by (simp add: well_formed_def)
  show ?thesis
    using assms(1) r NewChannel
    by (auto simp add: members_ok_def refs_ok_def Channel_init_def nth_append)
next
  case (Distribute chs)
  have cl: "clear_routes (distribute_routes h chs) = clear_routes h" by simp
  show ?thesis using assms(1) Distribute by (simp add: members_ok_def same_graph [OF cl])
next
  case (NewInterface n c ident)
  show ?thesis
  proof (cases "n < length (nodes h) \<and> c < length (channels h)")
    case False
    then show ?thesis using assms(1) NewInterface by auto
  next
    case True
    let ?h = "fst (Interface_init h n c ident)"
    have ex: "exec cmd h = ?h" using True NewInterface by simp
    have r: "refs_ok h" using wf by (simp add: well_formed_def)
    show ?thesis
      unfolding ex members_ok_def
    proof (intro allI impI)
      fix i assume "i < length (interfaces ?h)"
      then have i: "i < Suc (length (interfaces h))" by (simp add: Interface_init_fields)
      show "i \<in> set (n_interfaces (nodes ?h ! i_node (interfaces ?h ! i))) \<and>
            i \<in> set (c_interfaces (channels ?h ! i_channel (interfaces ?h ! i)))"
      proof (cases "i < length (interfaces h)")
        case old: True
        then have a: "i \<in> set (n_interfaces (nodes h ! i_node (interfaces h ! i)))"
          and b: "i \<in> set (c_interfaces (channels h ! i_channel (interfaces h ! i)))"
          and c: "i_node (interfaces h ! i) < length (nodes h)"
          and d: "i_channel (interfaces h ! i) < length (channels h)"
          using assms(1) r by (simp_all add: members_ok_def refs_ok_def)
        have e: "interfaces ?h ! i = interfaces h ! i"
          using old by (simp add: Interface_init_fields nth_append)
        show ?thesis
          unfolding e using a b c d
          by (cases "i_node (interfaces h ! i) = n"; cases "i_channel (interfaces h ! i) = c")
             (simp_all add: Interface_init_fields)
      next
        case False
        with i have "i = length (interfaces h)" by simp
        then show ?thesis using True by (simp add: Interface_init_fields)
      qed
    qed
  qed
qed

lemma members_ok_build: "members_ok (build cmds)"
proof (induction cmds rule: rev_induct)
  case Nil
  show ?case by (simp add: members_ok_def build_def empty_heap_def)
next
  case (snoc cmd cmds)
  then show ?case using well_formed_build by (simp add: build_snoc members_ok_exec)
qed

subsection \<open>One expansion of the traversal\<close>

text \<open>The interfaces that the two nested loops of an expansion visit, in order.\<close>

definition out_interfaces :: "heap \<Rightarrow> nat \<Rightarrow> nat list" where
  "out_interfaces h cur =
     concat (map (\<lambda>in_interface. n_interfaces (nodes h ! i_node (interfaces h ! in_interface)))
                 (c_interfaces (channels h ! cur)))"

lemma clear_routes_fold_visit:
  "clear_routes (fst (fold (visit self d) outs s)) = clear_routes (fst s)"
proof (induction outs arbitrary: s)
  case Nil
  show ?case by simp
next
  case (Cons out outs)
  obtain h k q where s: "s = (h, k, q)" by (cases s)
  show ?case using Cons [of "visit self d out s"] by (simp add: s clear_routes_visit)
qed

lemma expand_out_interfaces:
  "expand self cur d s = fold (visit self d) (out_interfaces (fst s) cur) s"
proof -
  have "fold (\<lambda>in_interface s.
               fold (visit self d)
                 (n_interfaces (nodes (fst s) ! i_node (interfaces (fst s) ! in_interface))) s) xs s =
        fold (visit self d)
          (concat (map (\<lambda>in_interface. n_interfaces (nodes h0 ! i_node (interfaces h0 ! in_interface))) xs)) s"
    if "clear_routes (fst s) = clear_routes h0" for xs h0 s
    using that
  proof (induction xs arbitrary: s)
    case Nil
    show ?case by simp
  next
    case (Cons x xs)
    note sg = same_graph(1,2) [OF Cons.prems]
    let ?s = "fold (visit self d) (n_interfaces (nodes h0 ! i_node (interfaces h0 ! x))) s"
    have "clear_routes (fst ?s) = clear_routes h0"
      using Cons.prems by (simp add: clear_routes_fold_visit)
    from Cons.IH [OF this] show ?case by (simp add: sg)
  qed
  from this [of s "fst s"] show ?thesis by (simp add: expand_def out_interfaces_def)
qed

text \<open>
  What a sequence of visits does: the channels of the visited interfaces that were not
  known become known, are queued in the order of their first visit, and get one record each.
\<close>

lemma fold_visit_result:
  assumes "\<forall>out \<in> set outs. out < length (interfaces h)"
  shows "\<exists>h' news g.
           fold (visit self d) outs (h, known, queue) =
             (h', known \<union> set news, queue @ map (\<lambda>c. (c, d + 1)) news) \<and>
           distinct news \<and>
           set news = (\<lambda>out. i_channel (interfaces h ! out)) ` set outs - known \<and>
           clear_routes h' = clear_routes h \<and>
           (\<forall>c < length (channels h).
              routes_at h' c = routes_at h c @ (if c \<in> set news then [(self, g c, d + 1)] else []))"
  using assms
proof (induction outs arbitrary: h known queue)
  case Nil
  show ?case by (rule exI [of _ h], rule exI [of _ "[]"]) simp
next
  case (Cons out outs)
  let ?next = "i_channel (interfaces h ! out)"
  have out: "out < length (interfaces h)" using Cons.prems by simp
  show ?case
  proof (cases "?next \<in> known")
    case True
    then have v: "visit self d out (h, known, queue) = (h, known, queue)"
      by (simp add: visit_def Let_def)
    from Cons.prems have "\<forall>out \<in> set outs. out < length (interfaces h)" by simp
    from Cons.IH [OF this, of known queue] obtain h' news g where
      r: "fold (visit self d) outs (h, known, queue) =
             (h', known \<union> set news, queue @ map (\<lambda>c. (c, d + 1)) news)"
      and d: "distinct news"
      and s: "set news = (\<lambda>out. i_channel (interfaces h ! out)) ` set outs - known"
      and c: "clear_routes h' = clear_routes h"
      and t: "\<forall>c < length (channels h).
              routes_at h' c = routes_at h c @ (if c \<in> set news then [(self, g c, d + 1)] else [])"
      by blast
    have "set news = (\<lambda>out. i_channel (interfaces h ! out)) ` set (out # outs) - known"
      using s True by auto
    with r d c t v show ?thesis by (intro exI [of _ h'] exI [of _ news] exI [of _ g]) simp
  next
    case False
    let ?r = "(self, out, d + 1)"
    let ?h1 = "add_route h ?next ?r"
    have v: "visit self d out (h, known, queue) =
             (?h1, insert ?next known, queue @ [(?next, d + 1)])"
      using False out by (simp add: visit_def Let_def)
    have i1: "interfaces ?h1 = interfaces h" by simp
    from Cons.prems have "\<forall>out \<in> set outs. out < length (interfaces ?h1)" by simp
    from Cons.IH [OF this, of "insert ?next known" "queue @ [(?next, d + 1)]"]
    obtain h' news g where
      r: "fold (visit self d) outs (?h1, insert ?next known, queue @ [(?next, d + 1)]) =
             (h', insert ?next known \<union> set news,
              (queue @ [(?next, d + 1)]) @ map (\<lambda>c. (c, d + 1)) news)"
      and d: "distinct news"
      and s: "set news = (\<lambda>out. i_channel (interfaces ?h1 ! out)) ` set outs - insert ?next known"
      and c: "clear_routes h' = clear_routes ?h1"
      and t: "\<forall>c < length (channels ?h1).
              routes_at h' c = routes_at ?h1 c @ (if c \<in> set news then [(self, g c, d + 1)] else [])"
      by blast
    let ?news = "?next # news" and ?g = "g (?next := out)"
    have 1: "fold (visit self d) (out # outs) (h, known, queue) =
             (h', known \<union> set ?news, queue @ map (\<lambda>c. (c, d + 1)) ?news)"
      using r v by simp
    have 2: "distinct ?news" using d s by auto
    have 3: "set ?news = (\<lambda>out. i_channel (interfaces h ! out)) ` set (out # outs) - known"
      using s False by (auto simp add: i1)
    have 4: "clear_routes h' = clear_routes h" using c by (simp add: clear_routes_add_route)
    have 5: "\<forall>c < length (channels h).
              routes_at h' c = routes_at h c @ (if c \<in> set ?news then [(self, ?g c, d + 1)] else [])"
    proof (intro allI impI)
      fix c assume c: "c < length (channels h)"
      then have "c < length (channels ?h1)" by (simp add: add_route_def)
      with t have e: "routes_at h' c =
        routes_at ?h1 c @ (if c \<in> set news then [(self, g c, d + 1)] else [])" by simp
      show "routes_at h' c = routes_at h c @ (if c \<in> set ?news then [(self, ?g c, d + 1)] else [])"
      proof (cases "c = ?next")
        case True
        then have "c \<notin> set news" using s by auto
        then show ?thesis using e True c by (simp add: routes_at_add_route)
      next
        case False
        then show ?thesis using e c by (simp add: routes_at_add_route)
      qed
    qed
    from 1 2 3 4 5 show ?thesis
      by (intro exI [of _ h'] exI [of _ ?news] exI [of _ ?g] conjI)
  qed
qed

subsection \<open>The graph of a built store\<close>

definition graph_ok :: "heap \<Rightarrow> bool" where
  "graph_ok h \<longleftrightarrow> refs_ok h \<and> node_interfaces_ok h \<and> channel_interfaces_ok h \<and> members_ok h"

lemma graph_ok_build: "graph_ok (build cmds)"
  using well_formed_build [of cmds] members_ok_build [of cmds]
  by (simp add: graph_ok_def well_formed_def)

lemma graph_ok_same_graph:
  assumes "clear_routes h' = clear_routes h" and "graph_ok h"
  shows "graph_ok h'"
  using assms(2) unfolding graph_ok_def refs_ok_def node_interfaces_ok_def channel_interfaces_ok_def
    members_ok_def same_graph [OF assms(1)] .

lemma joined_same_graph:
  assumes "clear_routes h' = clear_routes h"
  shows "joined h' = joined h"
  by (simp add: fun_eq_iff joined_def shared_nodes_def attached_def same_graph [OF assms])

text \<open>An expansion of a channel visits interfaces on exactly the channels joined to it.\<close>

lemma out_interfaces_valid:
  assumes "graph_ok h" and "cur < length (channels h)" and "out \<in> set (out_interfaces h cur)"
  shows "out < length (interfaces h)"
proof -
  from assms(3) obtain in_interface where
    i: "in_interface \<in> set (c_interfaces (channels h ! cur))"
    and o: "out \<in> set (n_interfaces (nodes h ! i_node (interfaces h ! in_interface)))"
    by (auto simp add: out_interfaces_def)
  from i assms(1,2) have "in_interface < length (interfaces h)"
    by (auto simp add: graph_ok_def channel_interfaces_ok_def in_set_conv_nth)
  then have "i_node (interfaces h ! in_interface) < length (nodes h)"
    using assms(1) by (simp add: graph_ok_def refs_ok_def)
  with o assms(1) show ?thesis by (auto simp add: graph_ok_def node_interfaces_ok_def)
qed

lemma out_interfaces_channels:
  assumes "graph_ok h" and "cur < length (channels h)"
  shows "(\<lambda>out. i_channel (interfaces h ! out)) ` set (out_interfaces h cur) = {c. joined h cur c}"
proof (intro set_eqI iffI)
  fix c assume "c \<in> (\<lambda>out. i_channel (interfaces h ! out)) ` set (out_interfaces h cur)"
  then obtain in_interface out where
    i: "in_interface \<in> set (c_interfaces (channels h ! cur))"
    and o: "out \<in> set (n_interfaces (nodes h ! i_node (interfaces h ! in_interface)))"
    and c: "c = i_channel (interfaces h ! out)"
    by (auto simp add: out_interfaces_def)
  from i assms have iv: "in_interface < length (interfaces h)"
    and ic: "i_channel (interfaces h ! in_interface) = cur"
    by (auto simp add: graph_ok_def channel_interfaces_ok_def in_set_conv_nth)
  let ?n = "i_node (interfaces h ! in_interface)"
  have "?n < length (nodes h)" using iv assms(1) by (simp add: graph_ok_def refs_ok_def)
  with o assms(1) have ov: "out < length (interfaces h)" and on: "i_node (interfaces h ! out) = ?n"
    by (auto simp add: graph_ok_def node_interfaces_ok_def)
  have "attached h ?n cur" using iv ic by (auto simp add: attached_iff)
  moreover have "attached h ?n c" using ov on c by (auto simp add: attached_iff)
  ultimately show "c \<in> {c. joined h cur c}" by (auto simp add: joined_iff)
next
  fix c assume "c \<in> {c. joined h cur c}"
  then obtain n where "attached h n cur" and "attached h n c" by (auto simp add: joined_iff)
  then obtain i j where i: "i < length (interfaces h)" "i_node (interfaces h ! i) = n"
    "i_channel (interfaces h ! i) = cur"
    and j: "j < length (interfaces h)" "i_node (interfaces h ! j) = n"
    "i_channel (interfaces h ! j) = c"
    by (auto simp add: attached_iff)
  from i assms(1) have "i \<in> set (c_interfaces (channels h ! cur))"
    by (auto simp add: graph_ok_def members_ok_def)
  moreover from j assms(1) have "j \<in> set (n_interfaces (nodes h ! n))"
    by (auto simp add: graph_ok_def members_ok_def)
  ultimately have "j \<in> set (out_interfaces h cur)"
    using i(2) by (auto simp add: out_interfaces_def)
  then show "c \<in> (\<lambda>out. i_channel (interfaces h ! out)) ` set (out_interfaces h cur)"
    using j(3) by force
qed

lemma expand_result:
  assumes "graph_ok h" and "cur < length (channels h)"
  shows "\<exists>h' news g.
           expand self cur d (h, known, queue) =
             (h', known \<union> set news, queue @ map (\<lambda>c. (c, d + 1)) news) \<and>
           distinct news \<and> set news = {c. joined h cur c} - known \<and>
           clear_routes h' = clear_routes h \<and>
           (\<forall>c < length (channels h).
              routes_at h' c = routes_at h c @ (if c \<in> set news then [(self, g c, d + 1)] else []))"
proof -
  have "\<forall>out \<in> set (out_interfaces h cur). out < length (interfaces h)"
    using out_interfaces_valid [OF assms] by blast
  from fold_visit_result [OF this, of self d known queue]
  show ?thesis
    by (simp add: expand_out_interfaces out_interfaces_channels [OF assms])
qed

lemma distinct_singleton: "distinct xs \<Longrightarrow> set xs = {x} \<Longrightarrow> xs = [x]"
  by (cases xs) (auto, metis empty_iff empty_set insert_iff list.set_intros(1) neq_Nil_conv singletonD subset_singletonD)

subsection \<open>The chain of four channels\<close>

lemma expand_one:
  assumes "graph_ok h" and "cur < length (channels h)"
    and "{c. joined h cur c} - known = {nxt}"
  shows "\<exists>h' g. expand self cur d (h, known, []) = (h', insert nxt known, [(nxt, d + 1)]) \<and>
           clear_routes h' = clear_routes h \<and>
           (\<forall>c < length (channels h).
              routes_at h' c = routes_at h c @ (if c = nxt then [(self, g, d + 1)] else []))"
proof -
  from expand_result [OF assms(1,2), of self d known "[]"] obtain h' news g where
    e: "expand self cur d (h, known, []) = (h', known \<union> set news, [] @ map (\<lambda>c. (c, d + 1)) news)"
    and d: "distinct news" and s: "set news = {c. joined h cur c} - known"
    and c: "clear_routes h' = clear_routes h"
    and r: "\<forall>c < length (channels h).
              routes_at h' c = routes_at h c @ (if c \<in> set news then [(self, g c, d + 1)] else [])"
    by blast
  from d s assms(3) have n: "news = [nxt]" by (simp add: distinct_singleton)
  show ?thesis
    using e c r unfolding n by (intro exI [of _ h'] exI [of _ "g nxt"]) auto
qed

lemma expand_none:
  assumes "graph_ok h" and "cur < length (channels h)"
    and "{c. joined h cur c} - known = {}"
  shows "\<exists>h'. expand self cur d (h, known, []) = (h', known, []) \<and>
           clear_routes h' = clear_routes h \<and>
           (\<forall>c < length (channels h). routes_at h' c = routes_at h c)"
proof -
  from expand_result [OF assms(1,2), of self d known "[]"] obtain h' news g where
    e: "expand self cur d (h, known, []) = (h', known \<union> set news, [] @ map (\<lambda>c. (c, d + 1)) news)"
    and s: "set news = {c. joined h cur c} - known"
    and c: "clear_routes h' = clear_routes h"
    and r: "\<forall>c < length (channels h).
              routes_at h' c = routes_at h c @ (if c \<in> set news then [(self, g c, d + 1)] else [])"
    by blast
  from s assms(3) have n: "news = []" by simp
  show ?thesis
    using e c r unfolding n by (intro exI [of _ h']) auto
qed

text \<open>
  The traversal from the end \<open>a\<close> of a chain \<open>a\<close>, \<open>b\<close>, \<open>c\<close>, \<open>d\<close>: one record each at \<open>b\<close>,
  \<open>c\<close> and \<open>d\<close>, at distances 1, 2 and 3, and none at \<open>a\<close>.
\<close>

lemma chain_traversal:
  assumes g: "graph_ok h"
    and lt: "a < length (channels h)" "b < length (channels h)" "c < length (channels h)"
      "d < length (channels h)"
    and ne: "distinct [a, b, c, d]"
    and na: "{x. joined h a x} - {a} = {b}"
    and nb: "{x. joined h b x} - {b, a} = {c}"
    and nc: "{x. joined h c x} - {c, b, a} = {d}"
    and nd: "{x. joined h d x} - {d, c, b, a} = {}"
  shows "\<exists>g1 g2 g3.
           routes_at (distribute_route h a) a = routes_at h a \<and>
           routes_at (distribute_route h a) b = routes_at h b @ [(a, g1, 1)] \<and>
           routes_at (distribute_route h a) c = routes_at h c @ [(a, g2, 2)] \<and>
           routes_at (distribute_route h a) d = routes_at h d @ [(a, g3, 3)]"
proof -
  from expand_one [OF g lt(1) na, of a 0] obtain h1 g1 where
    e1: "expand a a 0 (h, {a}, []) = (h1, {b, a}, [(b, 0 + 1)])"
    and c1: "clear_routes h1 = clear_routes h"
    and r1: "\<forall>x < length (channels h).
              routes_at h1 x = routes_at h x @ (if x = b then [(a, g1, 0 + 1)] else [])"
    by blast
  have g1: "graph_ok h1" using c1 g by (rule graph_ok_same_graph)
  have l1: "length (channels h1) = length (channels h)" using c1 by (rule clear_routes_eq_length)
  have b1: "b < length (channels h1)" using lt l1 by simp
  have nb1: "{x. joined h1 b x} - {b, a} = {c}"
    using nb by (simp only: joined_same_graph [OF c1])
  from expand_one [OF g1 b1 nb1, of a "0 + 1"] obtain h2 g2 where
    e2: "expand a b (0 + 1) (h1, {b, a}, []) = (h2, {c, b, a}, [(c, 0 + 1 + 1)])"
    and c2: "clear_routes h2 = clear_routes h1"
    and r2: "\<forall>x < length (channels h1).
              routes_at h2 x = routes_at h1 x @ (if x = c then [(a, g2, 0 + 1 + 1)] else [])"
    by blast
  have g2: "graph_ok h2" using c2 g1 by (rule graph_ok_same_graph)
  have l2: "length (channels h2) = length (channels h)"
    using clear_routes_eq_length [OF c2] l1 by simp
  have c2': "c < length (channels h2)" using lt l2 by simp
  have nc2: "{x. joined h2 c x} - {c, b, a} = {d}"
    using nc by (simp only: joined_same_graph [OF c2] joined_same_graph [OF c1])
  from expand_one [OF g2 c2' nc2, of a "0 + 1 + 1"] obtain h3 g3 where
    e3: "expand a c (0 + 1 + 1) (h2, {c, b, a}, []) = (h3, {d, c, b, a}, [(d, 0 + 1 + 1 + 1)])"
    and c3: "clear_routes h3 = clear_routes h2"
    and r3: "\<forall>x < length (channels h2).
              routes_at h3 x = routes_at h2 x @ (if x = d then [(a, g3, 0 + 1 + 1 + 1)] else [])"
    by blast
  have g3: "graph_ok h3" using c3 g2 by (rule graph_ok_same_graph)
  have l3: "length (channels h3) = length (channels h)"
    using clear_routes_eq_length [OF c3] l2 by simp
  have d3: "d < length (channels h3)" using lt l3 by simp
  have nd3: "{x. joined h3 d x} - {d, c, b, a} = {}"
    using nd
    by (simp only: joined_same_graph [OF c3] joined_same_graph [OF c2] joined_same_graph [OF c1])
  from expand_none [OF g3 d3 nd3, of a "0 + 1 + 1 + 1"] obtain h4 where
    e4: "expand a d (0 + 1 + 1 + 1) (h3, {d, c, b, a}, []) = (h4, {d, c, b, a}, [])"
    and r4: "\<forall>x < length (channels h3). routes_at h4 x = routes_at h3 x"
    by blast
  have "bfs_loop a (h, {a}, [(a, 0)]) = bfs_loop a (h1, {b, a}, [(b, 0 + 1)])"
    by (simp only: bfs_loop.simps e1)
  also have "\<dots> = bfs_loop a (h2, {c, b, a}, [(c, 0 + 1 + 1)])"
    by (simp only: bfs_loop.simps e2)
  also have "\<dots> = bfs_loop a (h3, {d, c, b, a}, [(d, 0 + 1 + 1 + 1)])"
    by (simp only: bfs_loop.simps e3)
  also have "\<dots> = bfs_loop a (h4, {d, c, b, a}, [])"
    by (simp only: bfs_loop.simps e4)
  also have "\<dots> = h4" by (simp only: bfs_loop.simps)
  finally have res: "distribute_route h a = h4" by (simp only: distribute_route_def)
  have x4: "routes_at h4 x = routes_at h3 x" if "x < length (channels h)" for x
    using r4 that l3 by simp
  have x3: "routes_at h3 x = routes_at h2 x @ (if x = d then [(a, g3, 3)] else [])"
    if "x < length (channels h)" for x
    using r3 that l2 by simp
  have x2: "routes_at h2 x = routes_at h1 x @ (if x = c then [(a, g2, 2)] else [])"
    if "x < length (channels h)" for x
    using r2 that l1 by simp
  have x1: "routes_at h1 x = routes_at h x @ (if x = b then [(a, g1, 1)] else [])"
    if "x < length (channels h)" for x
    using r1 that by simp
  have "routes_at h4 a = routes_at h a" "routes_at h4 b = routes_at h b @ [(a, g1, 1)]"
    "routes_at h4 c = routes_at h c @ [(a, g2, 2)]" "routes_at h4 d = routes_at h d @ [(a, g3, 3)]"
    using lt ne by (simp_all add: x4 x3 x2 x1)
  then show ?thesis unfolding res by blast
qed

lemma clear_routes_idem: "clear_routes (clear_routes h) = clear_routes h"
  by (simp add: clear_routes_def)

lemma joined_sym: "joined h c c' \<longleftrightarrow> joined h c' c"
  by (auto simp add: joined_iff)

lemma joined_lt:
  assumes "graph_ok h" and "joined h c c'"
  shows "c' < length (channels h)"
  using assms by (auto simp add: joined_iff attached_iff graph_ok_def refs_ok_def)

text \<open>The channels joined to a channel, itself included when it has a member.\<close>

definition neighbours :: "heap \<Rightarrow> nat \<Rightarrow> nat list" where
  "neighbours h c = filter (joined h c) [0 ..< length (channels h)]"

lemma neighbours_iff:
  assumes "graph_ok h"
  shows "x \<in> set (neighbours h c) \<longleftrightarrow> joined h c x"
  using joined_lt [OF assms, of c x] by (auto simp add: neighbours_def)

text \<open>
  A chain \<open>a\<close>, \<open>b\<close>, \<open>c\<close>, \<open>d\<close>: four different channels, each consecutive pair sharing exactly
  one node, and no channel joined to one of them other than its neighbours in the chain.
\<close>

definition chain :: "heap \<Rightarrow> nat \<Rightarrow> nat \<Rightarrow> nat \<Rightarrow> nat \<Rightarrow> bool" where
  "chain h a b c d \<longleftrightarrow>
     distinct [a, b, c, d] \<and>
     is_singleton (shared_nodes h a b) \<and> is_singleton (shared_nodes h b c) \<and>
     is_singleton (shared_nodes h c d) \<and>
     set (neighbours h a) = {a, b} \<and> set (neighbours h b) = {a, b, c} \<and>
     set (neighbours h c) = {b, c, d} \<and> set (neighbours h d) = {c, d}"

lemma chain_delta:
  assumes g: "graph_ok h" and ne: "distinct [a, b, c, d]"
    and na: "set (neighbours h a) = {a, b}" and nb: "set (neighbours h b) = {a, b, c}"
    and nc: "set (neighbours h c) = {b, c, d}" and nd: "set (neighbours h d) = {c, d}"
  shows "\<exists>g1 g2 g3. delta h a b = [(a, g1, 1)] \<and> delta h a c = [(a, g2, 2)] \<and>
           delta h a d = [(a, g3, 3)]"
proof -
  let ?h = "clear_routes h"
  have c: "clear_routes ?h = clear_routes h" by (rule clear_routes_idem)
  have g': "graph_ok ?h" using c g by (rule graph_ok_same_graph)
  have j: "joined ?h = joined h" using c by (rule joined_same_graph)
  have ja: "{x. joined h a x} = {a, b}" using na neighbours_iff [OF g, of _ a] by auto
  have jb: "{x. joined h b x} = {a, b, c}" using nb neighbours_iff [OF g, of _ b] by auto
  have jc: "{x. joined h c x} = {b, c, d}" using nc neighbours_iff [OF g, of _ c] by auto
  have jd: "{x. joined h d x} = {c, d}" using nd neighbours_iff [OF g, of _ d] by auto
  have lt: "a < length (channels ?h)" "b < length (channels ?h)" "c < length (channels ?h)"
    "d < length (channels ?h)"
    using joined_lt [OF g, of a a] joined_lt [OF g, of a b] joined_lt [OF g, of c c]
      joined_lt [OF g, of c d] ja jc by auto
  have 1: "{x. joined ?h a x} - {a} = {b}" unfolding j ja using ne by auto
  have 2: "{x. joined ?h b x} - {b, a} = {c}" unfolding j jb using ne by auto
  have 3: "{x. joined ?h c x} - {c, b, a} = {d}" unfolding j jc using ne by auto
  have 4: "{x. joined ?h d x} - {d, c, b, a} = {}" unfolding j jd using ne by auto
  from chain_traversal [OF g' lt ne 1 2 3 4] obtain g1 g2 g3 where
    "routes_at (distribute_route ?h a) b = routes_at ?h b @ [(a, g1, 1)]"
    "routes_at (distribute_route ?h a) c = routes_at ?h c @ [(a, g2, 2)]"
    "routes_at (distribute_route ?h a) d = routes_at ?h d @ [(a, g3, 3)]"
    by blast
  then have "delta h a b = [(a, g1, 1)] \<and> delta h a c = [(a, g2, 2)] \<and> delta h a d = [(a, g3, 3)]"
    using lt by (simp add: delta_def routes_at_clear_routes)
  then show ?thesis by blast
qed

text \<open>The records of one origin in a route list, after a distribution over distinct channels.\<close>

lemma filter_delta:
  assumes "c < length (channels h)"
  shows "filter (\<lambda>r. fst r = origin) (delta h origin' c) =
         (if origin' = origin then delta h origin c else [])"
proof -
  have "\<forall>r \<in> set (delta h origin' c). fst r = origin'"
    using delta_origin_ok [OF assms] by (auto simp add: origin_ok_def)
  then show ?thesis by (auto simp add: filter_empty_conv)
qed

lemma filter_concat_delta:
  assumes "c < length (channels h)" and "distinct chs"
  shows "filter (\<lambda>r. fst r = origin) (concat (map (\<lambda>origin'. delta h origin' c) chs)) =
         (if origin \<in> set chs then delta h origin c else [])"
  using assms(2)
proof (induction chs)
  case Nil
  show ?case by simp
next
  case (Cons a chs)
  then show ?case by (auto simp add: filter_delta [OF assms(1)])
qed

lemma routes_from_origin:
  assumes "c < length (channels h)" and "distinct chs" and "origin \<in> set chs"
    and "routes_at h c = []"
  shows "filter (\<lambda>r. fst r = origin) (c_routes (channels (distribute_routes h chs) ! c)) =
         delta h origin c"
  using routes_at_distribute_routes [OF assms(1), of chs] assms(3,4)
  by (simp add: routes_at_def [symmetric] filter_concat_delta [OF assms(1,2)])

subsection \<open>A chain with three members on two of its channels\<close>

text \<open>
  Seven nodes and four channels: channel A has the members 0, 5 and 1, channel B the members
  1, 6 and 2, channel C the members 2 and 3, channel D the members 3 and 4. A and B share
  node 1 only, B and C node 2, C and D node 3.
\<close>

definition chain4_commands :: "command list" where
  "chain4_commands =
     [NewNode (NodeAccess 0), NewNode (NodeAccess 1), NewNode (NodeAccess 2),
      NewNode (NodeAccess 3), NewNode (NodeAccess 4), NewNode (NodeAccess 5),
      NewNode (NodeAccess 6), NewChannel ''c_a'' (167772160, 29) 0, NewInterface 0 0 None,
      NewInterface 5 0 None, NewInterface 1 0 None, NewChannel ''c_b'' (167772168, 29) 0,
      NewInterface 1 1 None, NewInterface 6 1 None, NewInterface 2 1 None,
      NewChannel ''c_c'' (167772176, 30) 0, NewInterface 2 2 None, NewInterface 3 2 None,
      NewChannel ''c_d'' (167772180, 30) 0, NewInterface 3 3 None, NewInterface 4 3 None]"

definition chain4_heap :: heap where
  "chain4_heap =
     \<lparr>nodes =
        [\<lparr>n_kind = NodeAccess 0, n_device = ''router'', n_component = ''simple-router'',
          n_interfaces = [0], n_include_routes = True\<rparr>,
         \<lparr>n_kind = NodeAccess 1, n_device = ''router'', n_component = ''simple-router'',
          n_interfaces = [2, 3], n_include_routes = True\<rparr>,
         \<lparr>n_kind = NodeAccess 2, n_device = ''router'', n_component = ''simple-router'',
          n_interfaces = [5, 6], n_include_routes = True\<rparr>,
         \<lparr>n_kind = NodeAccess 3, n_device = ''router'', n_component = ''simple-router'',
          n_interfaces = [7, 8], n_include_routes = True\<rparr>,
         \<lparr>n_kind = NodeAccess 4, n_device = ''router'', n_component = ''simple-router'',
          n_interfaces = [9], n_include_routes = True\<rparr>,
         \<lparr>n_kind = NodeAccess 5, n_device = ''router'', n_component = ''simple-router'',
          n_interfaces = [1], n_include_routes = True\<rparr>,
         \<lparr>n_kind = NodeAccess 6, n_device = ''router'', n_component = ''simple-router'',
          n_interfaces = [4], n_include_routes = True\<rparr>],
      channels =
        [\<lparr>c_id = ''c_a'', c_network = (167772160, 29), c_delay = 0,
          c_interfaces = [0, 1, 2], c_routes = []\<rparr>,
         \<lparr>c_id = ''c_b'', c_network = (167772168, 29), c_delay = 0,
          c_interfaces = [3, 4, 5], c_routes = []\<rparr>,
         \<lparr>c_id = ''c_c'', c_network = (167772176, 30), c_delay = 0,
          c_interfaces = [6, 7], c_routes = []\<rparr>,
         \<lparr>c_id = ''c_d'', c_network = (167772180, 30), c_delay = 0,
          c_interfaces = [8, 9], c_routes = []\<rparr>],
      interfaces =
        [\<lparr>i_node = 0, i_id = ''i0'', i_channel = 0, i_offset = 0\<rparr>,
         \<lparr>i_node = 5, i_id = ''i0'', i_channel = 0, i_offset = 1\<rparr>,
         \<lparr>i_node = 1, i_id = ''i0'', i_channel = 0, i_offset = 2\<rparr>,
         \<lparr>i_node = 1, i_id = ''i1'', i_channel = 1, i_offset = 0\<rparr>,
         \<lparr>i_node = 6, i_id = ''i0'', i_channel = 1, i_offset = 1\<rparr>,
         \<lparr>i_node = 2, i_id = ''i0'', i_channel = 1, i_offset = 2\<rparr>,
         \<lparr>i_node = 2, i_id = ''i1'', i_channel = 2, i_offset = 0\<rparr>,
         \<lparr>i_node = 3, i_id = ''i0'', i_channel = 2, i_offset = 1\<rparr>,
         \<lparr>i_node = 3, i_id = ''i1'', i_channel = 3, i_offset = 0\<rparr>,
         \<lparr>i_node = 4, i_id = ''i0'', i_channel = 3, i_offset = 1\<rparr>]\<rparr>"

definition chain4_topology :: topology where
  "chain4_topology =
     \<lparr>backbone_nodes = [], aggregation_nodes = [], access_nodes = [0, 1, 2, 3, 4, 5, 6],
      uw_nodes = [], external_nodes = []\<rparr>"

lemma valid_chain4_networks:
  "valid_network (167772160, 29)" "valid_network (167772168, 29)"
  "valid_network (167772176, 30)" "valid_network (167772180, 30)"
  by (simp_all add: valid_network_iff net_simps)

lemma chain4_build: "build chain4_commands = chain4_heap"
  by (simp add: build_def chain4_commands_def chain4_heap_def valid_chain4_networks build_simps)

lemma chain4_channels: "get_channels chain4_heap chain4_topology = {0, 1, 2, 3}"
  by (auto simp add: get_channels_def get_nodes_def chain4_heap_def chain4_topology_def)

lemma chain4_shared:
  "shared_nodes chain4_heap 0 1 = {1}" "shared_nodes chain4_heap 1 2 = {2}"
  "shared_nodes chain4_heap 2 3 = {3}"
  by (auto simp add: shared_nodes_def attached_def chain4_heap_def)

lemma upt_4: "[0 ..< 4] = [0, 1, 2, 3]"
  by (simp add: upt_rec)

lemma chain4_neighbours:
  "neighbours chain4_heap 0 = [0, 1]" "neighbours chain4_heap 1 = [0, 1, 2]"
  "neighbours chain4_heap 2 = [1, 2, 3]" "neighbours chain4_heap 3 = [2, 3]"
  unfolding neighbours_def joined_def shared_nodes_def attached_def
  by (simp_all add: chain4_heap_def upt_4)

lemma chain4_chain: "chain chain4_heap 0 1 2 3"
  unfolding chain_def chain4_shared chain4_neighbours by (auto simp add: is_singleton_def)

text \<open>
  C4 (breadth-first distances): in a store built by constructor calls, let \<open>a\<close>, \<open>b\<close>, \<open>c\<close>,
  \<open>d\<close> be a chain of four channels: each consecutive pair shares exactly one node, and the
  channels joined to \<open>a\<close> are \<open>a\<close> and \<open>b\<close>, those joined to \<open>b\<close> are \<open>a\<close>, \<open>b\<close> and \<open>c\<close>, those
  joined to \<open>c\<close> are \<open>b\<close>, \<open>c\<close> and \<open>d\<close>, and those joined to \<open>d\<close> are \<open>c\<close> and \<open>d\<close>; the channels
  may have any number of members, attached in any order. After the distributor has run once
  for every channel of the topology, in any order, the records of origin \<open>a\<close> are exactly one
  at \<open>b\<close> with distance 1, one at \<open>c\<close> with distance 2 and one at \<open>d\<close> with distance 3, and
  the records of origin \<open>d\<close> are exactly one at \<open>c\<close> with distance 1, one at \<open>b\<close> with distance
  2 and one at \<open>a\<close> with distance 3.
\<close>

theorem chain_distances:
  assumes nd: "list_all (\<lambda>cmd. \<not> is_distribute cmd) cmds"
    and ch: "chain (build cmds) a b c d"
    and en: "enumerates chs (get_channels (build cmds) t)"
    and ad: "a \<in> get_channels (build cmds) t" "d \<in> get_channels (build cmds) t"
  shows "\<exists>g1 g2 g3 g4 g5 g6.
           filter (\<lambda>r. fst r = a) (c_routes (channels (distribute_routes (build cmds) chs) ! b)) = [(a, g1, 1)] \<and>
           filter (\<lambda>r. fst r = a) (c_routes (channels (distribute_routes (build cmds) chs) ! c)) = [(a, g2, 2)] \<and>
           filter (\<lambda>r. fst r = a) (c_routes (channels (distribute_routes (build cmds) chs) ! d)) = [(a, g3, 3)] \<and>
           filter (\<lambda>r. fst r = d) (c_routes (channels (distribute_routes (build cmds) chs) ! c)) = [(d, g4, 1)] \<and>
           filter (\<lambda>r. fst r = d) (c_routes (channels (distribute_routes (build cmds) chs) ! b)) = [(d, g5, 2)] \<and>
           filter (\<lambda>r. fst r = d) (c_routes (channels (distribute_routes (build cmds) chs) ! a)) = [(d, g6, 3)]"
proof -
  let ?h = "build cmds"
  have g: "graph_ok ?h" by (rule graph_ok_build)
  have ne: "distinct [a, b, c, d]" and ne': "distinct [d, c, b, a]"
    and na: "set (neighbours ?h a) = {a, b}" and nb: "set (neighbours ?h b) = {a, b, c}"
    and nc: "set (neighbours ?h c) = {b, c, d}" and nd': "set (neighbours ?h d) = {c, d}"
    using ch by (auto simp add: chain_def)
  have nb': "set (neighbours ?h b) = {c, b, a}" and nc': "set (neighbours ?h c) = {d, c, b}"
    and nd'': "set (neighbours ?h d) = {d, c}" and na': "set (neighbours ?h a) = {b, a}"
    using na nb nc nd' by auto
  have lt: "a < length (channels ?h)" "b < length (channels ?h)" "c < length (channels ?h)"
    "d < length (channels ?h)"
    using na nc neighbours_iff [OF g, of a a] neighbours_iff [OF g, of b a]
      neighbours_iff [OF g, of c c] neighbours_iff [OF g, of d c]
      joined_lt [OF g, of a a] joined_lt [OF g, of a b] joined_lt [OF g, of c c]
      joined_lt [OF g, of c d] by auto
  have e: "routes_at ?h x = []" if "x < length (channels ?h)" for x
    using no_routes_build [OF nd] that by (simp add: no_routes_def routes_at_def)
  have s: "distinct chs" "a \<in> set chs" "d \<in> set chs"
    using en ad by (simp_all add: enumerates_def)
  have r: "filter (\<lambda>r. fst r = origin) (c_routes (channels (distribute_routes ?h chs) ! x)) =
           delta ?h origin x" if "x < length (channels ?h)" and "origin \<in> set chs" for x origin
    using that(1) s(1) that(2) e [OF that(1)] by (rule routes_from_origin)
  from chain_delta [OF g ne na nb nc nd'] obtain g1 g2 g3 where
    A: "delta ?h a b = [(a, g1, 1)]" "delta ?h a c = [(a, g2, 2)]" "delta ?h a d = [(a, g3, 3)]"
    by blast
  from chain_delta [OF g ne' nd'' nc' nb' na'] obtain g4 g5 g6 where
    D: "delta ?h d c = [(d, g4, 1)]" "delta ?h d b = [(d, g5, 2)]" "delta ?h d a = [(d, g6, 3)]"
    by blast
  show ?thesis
    using r [OF lt(2) s(2)] r [OF lt(3) s(2)] r [OF lt(4) s(2)]
      r [OF lt(3) s(3)] r [OF lt(2) s(3)] r [OF lt(1) s(3)]
    unfolding A D by blast
qed

theorem chain_distances_witness:
  "list_all (\<lambda>cmd. \<not> is_distribute cmd) chain4_commands \<and>
   chain (build chain4_commands) 0 1 2 3 \<and>
   enumerates [2, 0, 3, 1] (get_channels (build chain4_commands) chain4_topology) \<and>
   0 \<in> get_channels (build chain4_commands) chain4_topology \<and>
   3 \<in> get_channels (build chain4_commands) chain4_topology \<and>
   (\<exists>g1 g2 g3 g4 g5 g6.
      filter (\<lambda>r. fst r = 0) (c_routes (channels (distribute_routes (build chain4_commands) [2, 0, 3, 1]) ! 1)) = [(0, g1, 1)] \<and>
      filter (\<lambda>r. fst r = 0) (c_routes (channels (distribute_routes (build chain4_commands) [2, 0, 3, 1]) ! 2)) = [(0, g2, 2)] \<and>
      filter (\<lambda>r. fst r = 0) (c_routes (channels (distribute_routes (build chain4_commands) [2, 0, 3, 1]) ! 3)) = [(0, g3, 3)] \<and>
      filter (\<lambda>r. fst r = 3) (c_routes (channels (distribute_routes (build chain4_commands) [2, 0, 3, 1]) ! 2)) = [(3, g4, 1)] \<and>
      filter (\<lambda>r. fst r = 3) (c_routes (channels (distribute_routes (build chain4_commands) [2, 0, 3, 1]) ! 1)) = [(3, g5, 2)] \<and>
      filter (\<lambda>r. fst r = 3) (c_routes (channels (distribute_routes (build chain4_commands) [2, 0, 3, 1]) ! 0)) = [(3, g6, 3)])"
proof -
  have n: "list_all (\<lambda>cmd. \<not> is_distribute cmd) chain4_commands"
    by (simp add: chain4_commands_def)
  have c: "chain (build chain4_commands) 0 1 2 3"
    unfolding chain4_build by (rule chain4_chain)
  have e: "enumerates [2, 0, 3, 1] (get_channels (build chain4_commands) chain4_topology)"
    unfolding chain4_build chain4_channels by (auto simp add: enumerates_def)
  have a: "0 \<in> get_channels (build chain4_commands) chain4_topology"
    and d: "3 \<in> get_channels (build chain4_commands) chain4_topology"
    unfolding chain4_build chain4_channels by simp_all
  from chain_distances [OF n c e a d] n c e a d show ?thesis by blast
qed

subsection \<open>Addresses of the members of a channel\<close>

text \<open>Four nodes on one channel whose block is a /30.\<close>

definition crowded_commands :: "command list" where
  "crowded_commands =
     [NewNode (NodeAccess 0), NewNode (NodeAccess 1), NewNode (NodeAccess 2), NewNode (NodeAccess 3),
      NewChannel ''c'' (167772160, 30) 0,
      NewInterface 0 0 None, NewInterface 1 0 None, NewInterface 2 0 None, NewInterface 3 0 None]"

lemma crowded_build:
  "channels (build crowded_commands) =
     [\<lparr>c_id = ''c'', c_network = (167772160, 30), c_delay = 0,
       c_interfaces = [0, 1, 2, 3], c_routes = []\<rparr>]"
  "interfaces (build crowded_commands) =
     [\<lparr>i_node = 0, i_id = ''i0'', i_channel = 0, i_offset = 0\<rparr>,
      \<lparr>i_node = 1, i_id = ''i0'', i_channel = 0, i_offset = 1\<rparr>,
      \<lparr>i_node = 2, i_id = ''i0'', i_channel = 0, i_offset = 2\<rparr>,
      \<lparr>i_node = 3, i_id = ''i0'', i_channel = 0, i_offset = 3\<rparr>]"
  by (simp_all add: build_def crowded_commands_def valid_chain3_networks build_simps)

text \<open>An attachment appends the new interface to the member list of its channel only.\<close>

lemma attach_appends_to_channel:
  assumes "c < length (channels h)"
  shows "c_interfaces (channels (fst (Interface_init h n c ident)) ! c') =
         (if c' = c then c_interfaces (channels h ! c) @ [snd (Interface_init h n c ident)]
          else c_interfaces (channels h ! c'))"
  using assms by (simp add: Interface_init_fields)

text \<open>
  The member at position k of a channel has offset k; \<^verbatim>\<open>get_ip\<close> gives it the block's
  network address plus k + 1 when that address is in the block, and raises IndexError
  otherwise.
\<close>

lemma member_address:
  assumes "c < length (channels (build cmds))"
    and "k < length (c_interfaces (channels (build cmds) ! c))"
  shows "i_offset (interfaces (build cmds) ! (c_interfaces (channels (build cmds) ! c) ! k)) = k \<and>
         get_ip (build cmds) (c_interfaces (channels (build cmds) ! c) ! k) =
           (if k + 1 < 2 ^ (32 - prefixlen (c_network (channels (build cmds) ! c)))
            then Inr (network_address (c_network (channels (build cmds) ! c)) + (k + 1),
                      prefixlen (c_network (channels (build cmds) ! c)))
            else Inl IndexError)"
proof -
  let ?h = "build cmds"
  let ?i = "c_interfaces (channels ?h ! c) ! k"
  have wf: "well_formed ?h" by (rule well_formed_build)
  then have "i_channel (interfaces ?h ! ?i) = c" and off: "i_offset (interfaces ?h ! ?i) = k"
    using assms by (simp_all add: well_formed_def channel_interfaces_ok_def)
  moreover have "valid_network (c_network (channels ?h ! c))"
    using wf assms(1) by (simp add: well_formed_def networks_ok_def)
  ultimately show ?thesis
    by (simp add: get_ip_def getitem_eq Let_def)
qed

lemma member_beyond_block:
  "c_interfaces (channels (build crowded_commands) ! 0) ! 3 = 3 \<and>
   c_network (channels (build crowded_commands) ! 0) = (167772160, 30) \<and>
   get_ip (build crowded_commands) 3 = Inl IndexError"
  by (simp add: get_ip_def crowded_build getitem_eq valid_chain3_networks net_simps)

text \<open>
  C6 (address determinism): in every built store, whatever the interleaving of the
  attachments to this and to other channels, the interface at position k of a channel's
  member list (the k-th attached, counted from 0) has offset k and receives the address
  at host offset k + 1 of the channel's block, at the block's prefix length. The
  specification assumes that the block has the capacity for its members: the host offset
  k + 1 is an address of the block, that is, it is below the block's size.
\<close>

theorem address_determinism:
  assumes "c < length (channels (build cmds))"
    and "k < length (c_interfaces (channels (build cmds) ! c))"
    and "k + 1 < 2 ^ (32 - prefixlen (c_network (channels (build cmds) ! c)))"
  shows "i_offset (interfaces (build cmds) ! (c_interfaces (channels (build cmds) ! c) ! k)) = k \<and>
         get_ip (build cmds) (c_interfaces (channels (build cmds) ! c) ! k) =
           Inr (network_address (c_network (channels (build cmds) ! c)) + (k + 1),
                prefixlen (c_network (channels (build cmds) ! c)))"
  using member_address [OF assms(1,2)] assms(3) by simp

theorem address_determinism_witness:
  "0 < length (channels (build crowded_commands)) \<and>
   2 < length (c_interfaces (channels (build crowded_commands) ! 0)) \<and>
   (2::nat) + 1 < 2 ^ (32 - prefixlen (c_network (channels (build crowded_commands) ! 0))) \<and>
   i_offset (interfaces (build crowded_commands) ! (c_interfaces (channels (build crowded_commands) ! 0) ! 2)) = 2 \<and>
   get_ip (build crowded_commands) (c_interfaces (channels (build crowded_commands) ! 0) ! 2) =
     Inr (167772163, 30)"
proof -
  have a: "0 < length (channels (build crowded_commands))"
    and b: "2 < length (c_interfaces (channels (build crowded_commands) ! 0))"
    and c: "(2::nat) + 1 < 2 ^ (32 - prefixlen (c_network (channels (build crowded_commands) ! 0)))"
    by (simp_all add: crowded_build net_simps)
  from address_determinism [OF a b c] a b c show ?thesis
    by (simp add: crowded_build net_simps)
qed

subsection \<open>Identifiers of the interfaces of a node\<close>

lemma digit_inj: "a < 10 \<Longrightarrow> b < 10 \<Longrightarrow> digit a = digit b \<Longrightarrow> a = b"
proof -
  assume a: "a < 10" and b: "b < 10" and e: "digit a = digit b"
  have "distinct ''0123456789''" by simp
  moreover have "a < length ''0123456789''" "b < length ''0123456789''" using a b by simp_all
  ultimately show "a = b" using e unfolding digit_def by (simp only: nth_eq_iff_index_eq)
qed

lemma str_nat_not_Nil: "str_nat n \<noteq> []"
  by (subst str_nat.simps) simp

lemma str_nat_inj: "str_nat m = str_nat n \<Longrightarrow> m = n"
proof (induction m arbitrary: n rule: str_nat.induct)
  case (1 m)
  show ?case
  proof (cases "m < 10")
    case True
    show ?thesis
    proof (cases "n < 10")
      case n: True
      from "1.prems" True n have "digit m = digit n" by (simp add: str_nat.simps [of m] str_nat.simps [of n])
      with True n show ?thesis by (intro digit_inj)
    next
      case n: False
      from "1.prems" True n have "[digit m] = str_nat (n div 10) @ [digit (n mod 10)]"
        by (simp add: str_nat.simps [of m] str_nat.simps [of n])
      then show ?thesis using str_nat_not_Nil [of "n div 10"] by simp
    qed
  next
    case False
    show ?thesis
    proof (cases "n < 10")
      case n: True
      from "1.prems" False n have "str_nat (m div 10) @ [digit (m mod 10)] = [digit n]"
        by (simp add: str_nat.simps [of m] str_nat.simps [of n])
      then show ?thesis using str_nat_not_Nil [of "m div 10"] by simp
    next
      case n: False
      from "1.prems" False n
      have "str_nat (m div 10) @ [digit (m mod 10)] = str_nat (n div 10) @ [digit (n mod 10)]"
        by (simp add: str_nat.simps [of m] str_nat.simps [of n])
      then have a: "str_nat (m div 10) = str_nat (n div 10)" and b: "digit (m mod 10) = digit (n mod 10)"
        by simp_all
      from "1.IH" [OF False a] have "m div 10 = n div 10" .
      moreover from b have "m mod 10 = n mod 10" by (intro digit_inj) simp_all
      ultimately show ?thesis by (metis div_mult_mod_eq)
    qed
  qed
qed


text \<open>
  The \<^verbatim>\<open>id\<close> arguments of the executed attachments to node \<open>n\<close>, in order, in a run of
  commands from the store \<open>h\<close>.
\<close>

fun attach_ids :: "nat \<Rightarrow> command list \<Rightarrow> heap \<Rightarrow> string option list" where
  "attach_ids n [] h = []"
| "attach_ids n (cmd # cmds) h =
     (case cmd of
        NewInterface n' c ident \<Rightarrow>
          if n' = n \<and> n' < length (nodes h) \<and> c < length (channels h) then [ident] else []
      | _ \<Rightarrow> []) @ attach_ids n cmds (exec cmd h)"

lemma attach_ids_append:
  "attach_ids n (cmds @ [cmd]) h =
     attach_ids n cmds h @ attach_ids n [cmd] (fold exec cmds h)"
  by (induction cmds arbitrary: h) simp_all

definition ids_ok :: "nat \<Rightarrow> string option list \<Rightarrow> heap \<Rightarrow> bool" where
  "ids_ok n given h \<longleftrightarrow>
     (if n < length (nodes h)
      then length given = length (n_interfaces (nodes h ! n)) \<and>
           (\<forall>k < length given.
              i_id (interfaces h ! (n_interfaces (nodes h ! n) ! k)) =
                (case given ! k of Some s \<Rightarrow> s | None \<Rightarrow> ''i'' @ str_nat k))
      else given = [])"

lemma ids_ok_exec:
  assumes ok: "ids_ok n given h" and wf: "well_formed h"
  shows "ids_ok n (given @ attach_ids n [cmd] h) (exec cmd h)"
proof (cases cmd)
  case (NewNode kind)
  have "ids_ok n given (fst (Node_init kind' device component include_routes h))"
    for kind' device component include_routes
    using ok by (auto simp add: ids_ok_def Node_init_def nth_append split: if_splits)
  then show ?thesis using NewNode by (cases kind) simp_all
next
  case (NewChannel ident network delay)
  then show ?thesis using ok by (simp add: ids_ok_def Channel_init_def)
next
  case (Distribute chs)
  have cl: "clear_routes (distribute_routes h chs) = clear_routes h" by simp
  show ?thesis using ok Distribute by (simp add: ids_ok_def same_graph [OF cl])
next
  case (NewInterface n' c ident)
  show ?thesis
  proof (cases "n' < length (nodes h) \<and> c < length (channels h)")
    case False
    then show ?thesis using ok NewInterface by auto
  next
    case True
    let ?h = "fst (Interface_init h n' c ident)"
    have ex: "exec cmd h = ?h" using True NewInterface by simp
    have old: "i < length (interfaces h) \<Longrightarrow> interfaces ?h ! i = interfaces h ! i" for i
      by (simp add: Interface_init_fields nth_append)
    have valid: "m < length (nodes h) \<Longrightarrow> k < length (n_interfaces (nodes h ! m)) \<Longrightarrow>
        n_interfaces (nodes h ! m) ! k < length (interfaces h)" for m k
      using wf by (simp add: well_formed_def node_interfaces_ok_def)
    show ?thesis
    proof (cases "n' = n")
      case False
      then have g: "attach_ids n [cmd] h = []" using NewInterface by simp
      have "n < length (nodes h) \<Longrightarrow> nodes ?h ! n = nodes h ! n"
        using False by (simp add: Interface_init_fields)
      then show ?thesis
        using ok unfolding ex g
        by (auto simp add: ids_ok_def old valid Interface_init_fields(1) split: if_splits)
    next
      case same: True
      then have g: "attach_ids n [cmd] h = [ident]" using NewInterface True by simp
      have n: "n < length (nodes h)" using True same by simp
      have len: "length given = length (n_interfaces (nodes h ! n))"
        using ok n by (simp add: ids_ok_def)
      have ifs: "n_interfaces (nodes ?h ! n) = n_interfaces (nodes h ! n) @ [length (interfaces h)]"
        using n same by (simp add: Interface_init_fields)
      have A: "length (given @ [ident]) = length (n_interfaces (nodes ?h ! n))"
        using len ifs by simp
      have C: "n < length (nodes ?h)" using n by (simp add: Interface_init_fields)
      have B: "\<forall>k < length (given @ [ident]).
                 i_id (interfaces ?h ! (n_interfaces (nodes ?h ! n) ! k)) =
                   (case (given @ [ident]) ! k of Some s \<Rightarrow> s | None \<Rightarrow> ''i'' @ str_nat k)"
      proof (intro allI impI)
        fix k assume "k < length (given @ [ident])"
        then have k: "k < Suc (length (n_interfaces (nodes h ! n)))" using len by simp
        show "i_id (interfaces ?h ! (n_interfaces (nodes ?h ! n) ! k)) =
              (case (given @ [ident]) ! k of Some s \<Rightarrow> s | None \<Rightarrow> ''i'' @ str_nat k)"
        proof (cases "k < length (n_interfaces (nodes h ! n))")
          case True
          have "i_id (interfaces h ! (n_interfaces (nodes h ! n) ! k)) =
                (case given ! k of Some s \<Rightarrow> s | None \<Rightarrow> ''i'' @ str_nat k)"
            using ok n True by (simp add: ids_ok_def len)
          then show ?thesis
            using True n by (simp add: ifs nth_append len old valid)
        next
          case False
          with k have "k = length (n_interfaces (nodes h ! n))" by simp
          then show ?thesis
            by (simp add: ifs nth_append len) (simp add: Interface_init_fields(3) same split: option.splits)
        qed
      qed
      show ?thesis
        unfolding ex g ids_ok_def by (subst if_P [OF C]) (rule conjI [OF A B])
    qed
  qed
qed


lemma ids_ok_build: "ids_ok n (attach_ids n cmds empty_heap) (build cmds)"
proof (induction cmds rule: rev_induct)
  case Nil
  show ?case by (simp add: ids_ok_def build_def empty_heap_def)
next
  case (snoc cmd cmds)
  have "ids_ok n (attach_ids n cmds empty_heap @ attach_ids n [cmd] (build cmds)) (exec cmd (build cmds))"
    using snoc well_formed_build by (rule ids_ok_exec)
  then show ?case
    by (simp only: build_snoc attach_ids_append) (simp only: build_def)
qed

text \<open>Node X takes the explicit id \<^verbatim>\<open>i1\<close> on its first channel and no id on its second.\<close>

definition clash_commands :: "command list" where
  "clash_commands =
     [NewNode (NodeAccess 0), NewNode (NodeAccess 1), NewNode (NodeAccess 2),
      NewChannel ''c_acc0_acc1'' (167772160, 30) 0,
      NewInterface 0 0 (Some ''i1''), NewInterface 1 0 None,
      NewChannel ''c_acc0_acc2'' (167772164, 30) 0,
      NewInterface 0 1 None, NewInterface 2 1 None]"

text \<open>
  C9, as the specification states it: the identifiers of the interfaces of one node never
  collide. Node X above owns two interfaces, and both are called \<^verbatim>\<open>i1\<close>.
\<close>

theorem interface_ids_counterexample:
  "map (\<lambda>i. i_id (interfaces (build clash_commands) ! i))
       (n_interfaces (nodes (build clash_commands) ! 0)) = [''i1'', ''i1'']"
  by (simp add: build_def clash_commands_def valid_chain3_networks build_simps)

text \<open>
  C9, amended: the interface at position k of a node's list carries the explicit id
  its attachment was given or, when none was given, \<^verbatim>\<open>i\<close> followed by k in decimal; so two
  interfaces of one node that were both attached without an explicit id have different
  identifiers. An explicit id is stored unchecked: it may repeat another identifier.
\<close>

theorem interface_ids:
  assumes "n < length (nodes (build cmds))"
    and "k < length (n_interfaces (nodes (build cmds) ! n))"
  shows "i_id (interfaces (build cmds) ! (n_interfaces (nodes (build cmds) ! n) ! k)) =
           (case attach_ids n cmds empty_heap ! k of Some s \<Rightarrow> s | None \<Rightarrow> ''i'' @ str_nat k) \<and>
         (\<forall>j < k. attach_ids n cmds empty_heap ! j = None \<and> attach_ids n cmds empty_heap ! k = None \<longrightarrow>
            i_id (interfaces (build cmds) ! (n_interfaces (nodes (build cmds) ! n) ! j)) \<noteq>
            i_id (interfaces (build cmds) ! (n_interfaces (nodes (build cmds) ! n) ! k)))"
proof -
  let ?h = "build cmds" and ?g = "attach_ids n cmds empty_heap"
  have ok: "ids_ok n ?g ?h" by (rule ids_ok_build)
  then have len: "length ?g = length (n_interfaces (nodes ?h ! n))"
    using assms(1) by (simp add: ids_ok_def)
  have ident: "i_id (interfaces ?h ! (n_interfaces (nodes ?h ! n) ! j)) =
        (case ?g ! j of Some s \<Rightarrow> s | None \<Rightarrow> ''i'' @ str_nat j)" if "j \<le> k" for j
    using ok assms that len by (simp add: ids_ok_def)
  have "i_id (interfaces ?h ! (n_interfaces (nodes ?h ! n) ! j)) \<noteq>
        i_id (interfaces ?h ! (n_interfaces (nodes ?h ! n) ! k))"
    if "j < k" and "?g ! j = None" and "?g ! k = None" for j
  proof -
    have "str_nat j \<noteq> str_nat k" using that(1) str_nat_inj [of j k] by auto
    then show ?thesis using that by (simp add: ident)
  qed
  then show ?thesis using ident [of k] by simp
qed

theorem interface_ids_witness:
  "1 < length (nodes (build chain3_commands)) \<and>
   1 < length (n_interfaces (nodes (build chain3_commands) ! 1)) \<and>
   attach_ids 1 chain3_commands empty_heap = [None, None] \<and>
   i_id (interfaces (build chain3_commands) ! (n_interfaces (nodes (build chain3_commands) ! 1) ! 1)) = ''i1'' \<and>
   i_id (interfaces (build chain3_commands) ! (n_interfaces (nodes (build chain3_commands) ! 1) ! 0)) \<noteq>
   i_id (interfaces (build chain3_commands) ! (n_interfaces (nodes (build chain3_commands) ! 1) ! 1))"
proof -
  have a: "1 < length (nodes (build chain3_commands))"
    and b: "1 < length (n_interfaces (nodes (build chain3_commands) ! 1))"
    by (simp_all only: chain3_build) (simp_all add: chain3_heap_def)
  have g: "attach_ids 1 chain3_commands empty_heap = [None, None]"
    by (simp add: chain3_commands_def valid_chain3_networks build_simps)
  have g0: "attach_ids 1 chain3_commands empty_heap ! 0 = None"
    "attach_ids 1 chain3_commands empty_heap ! 1 = None"
    by (simp_all only: g) simp_all
  have s1: "''i'' @ str_nat 1 = ''i1''" by (simp add: str_nat.simps digit_def)
  note t = interface_ids [OF a b]
  from t have "i_id (interfaces (build chain3_commands) ! (n_interfaces (nodes (build chain3_commands) ! 1) ! 1)) =
       (case attach_ids 1 chain3_commands empty_heap ! 1 of Some s \<Rightarrow> s | None \<Rightarrow> ''i'' @ str_nat 1)"
    by (rule conjunct1)
  then have i1: "i_id (interfaces (build chain3_commands) ! (n_interfaces (nodes (build chain3_commands) ! 1) ! 1)) = ''i1''"
    by (simp only: g0 option.case s1)
  from t g0 zero_less_one
  have ne: "i_id (interfaces (build chain3_commands) ! (n_interfaces (nodes (build chain3_commands) ! 1) ! 0)) \<noteq>
      i_id (interfaces (build chain3_commands) ! (n_interfaces (nodes (build chain3_commands) ! 1) ! 1))"
    by blast
  from a b g i1 ne show ?thesis by blast
qed

subsection \<open>Blocks of the pool\<close>

definition addresses :: "ipv4network \<Rightarrow> nat set" where
  "addresses net = {network_address net .. broadcast_address net}"

text \<open>A number of calls of \<^verbatim>\<open>gen_network\<close> in a row; the first error ends the run.\<close>

fun gen_networks :: "nat \<Rightarrow> NetworkPool \<Rightarrow> error + (ipv4network list \<times> NetworkPool)" where
  "gen_networks 0 pool = Inr ([], pool)"
| "gen_networks (Suc k) pool =
     (case gen_network pool of
        Inl e \<Rightarrow> Inl e
      | Inr (n, pool') \<Rightarrow>
          (case gen_networks k pool' of
             Inl e \<Rightarrow> Inl e
           | Inr (ns, pool'') \<Rightarrow> Inr (n # ns, pool'')))"

lemma gen_networks_take:
  "gen_networks k pool = Inr (blocks, pool') \<Longrightarrow>
   k \<le> length (free_networks pool) \<and> blocks = take k (free_networks pool)"
proof (induction k arbitrary: pool blocks)
  case 0
  then show ?case by simp
next
  case (Suc k)
  from Suc.prems obtain n rest where f: "free_networks pool = n # rest"
    by (cases "free_networks pool") (auto simp add: gen_network_def)
  from Suc.prems f obtain ns where
    r: "gen_networks k (pool\<lparr>free_networks := rest\<rparr>) = Inr (ns, pool')" and b: "blocks = n # ns"
    by (auto simp add: gen_network_def split: sum.splits)
  from Suc.IH [OF r] f b show ?case by simp
qed

lemma block_facts:
  assumes v: "valid_network parent" and le: "prefixlen parent \<le> p" and p: "p \<le> 32"
    and j: "j < 2 ^ (p - prefixlen parent)"
  shows "valid_network (network_address parent + j * 2 ^ (32 - p), p)"
    and "addresses (network_address parent + j * 2 ^ (32 - p), p) =
         {network_address parent + j * 2 ^ (32 - p) ..
          network_address parent + j * 2 ^ (32 - p) + 2 ^ (32 - p) - 1}"
    and "addresses (network_address parent + j * 2 ^ (32 - p), p) \<subseteq> addresses parent"
proof -
  let ?a = "network_address parent" and ?q = "prefixlen parent"
  let ?s = "(2::nat) ^ (32 - p)" and ?S = "(2::nat) ^ (32 - ?q)"
  have q: "?q \<le> 32" and a: "?a < 2 ^ 32" and d: "?S dvd ?a"
    using v by (simp_all add: valid_network_iff)
  have S: "?S = 2 ^ (p - ?q) * ?s"
    using le p by (simp flip: power_add)
  have js: "(j + 1) * ?s \<le> ?S"
    unfolding S using j by (intro mult_le_mono1) simp
  have top: "?a + ?S \<le> 2 ^ 32"
  proof -
    from d obtain m where m: "?a = ?S * m" ..
    have "(2::nat) ^ 32 = ?S * 2 ^ ?q" using q by (simp flip: power_add)
    with a m have "?S * m < ?S * 2 ^ ?q" by simp
    then have "m < 2 ^ ?q" by simp
    then have "?S * (m + 1) \<le> ?S * 2 ^ ?q" by (intro mult_le_mono2) simp
    then show ?thesis using m \<open>(2::nat) ^ 32 = ?S * 2 ^ ?q\<close> by simp
  qed
  have "?s dvd ?S" using le by (intro le_imp_power_dvd) simp
  then have "?s dvd ?a" using d by (rule dvd_trans)
  then have dv: "?s dvd ?a + j * ?s" by simp
  have lt: "?a + j * ?s < 2 ^ 32"
  proof -
    have "j * ?s < (j + 1) * ?s" by simp
    with js top show ?thesis by linarith
  qed
  show v': "valid_network (?a + j * ?s, p)"
    using p dv lt by (simp add: valid_network_iff net_simps)
  have "broadcast_address (?a + j * ?s, p) = ?a + j * ?s + ?s - 1"
    using broadcast_eq [OF v'] by (simp add: net_simps)
  then show ad: "addresses (?a + j * ?s, p) = {?a + j * ?s .. ?a + j * ?s + ?s - 1}"
    by (simp add: addresses_def) (simp add: net_simps)
  have "?a + j * ?s + ?s - 1 \<le> ?a + ?S - 1"
    using js by (simp add: algebra_simps)
  then show "addresses (?a + j * ?s, p) \<subseteq> addresses parent"
    unfolding ad by (simp add: addresses_def broadcast_eq [OF v])
qed

lemma blocks_disjoint:
  assumes "i < j" and "0 < s"
  shows "{a + i * s .. a + i * s + s - 1} \<inter> {a + j * s .. a + j * s + s - 1} = ({}::nat set)"
proof -
  have "(i + 1) * s \<le> j * s" using assms(1) by (intro mult_le_mono1) simp
  then have "a + i * s + s - 1 < a + j * s" using assms(2) by (simp add: algebra_simps)
  then show ?thesis by auto
qed


text \<open>
  The library's \<^verbatim>\<open>subnets\<close> answers a /32 network with the network itself before it looks at
  the requested prefix length: the pool of a /32 parent holds the parent, whatever length is
  asked for.
\<close>

lemma pool_of_host_block:
  "valid_network (167772161, 32) \<and>
   NetworkPool_init (167772161, 32) 28 = Inr \<lparr>free_networks = [(167772161, 32)]\<rparr>"
  by (simp add: valid_network_iff NetworkPool_init_def subnets_def net_simps)

text \<open>For a sub-prefix length the pool is built, and holds every block of the partition.\<close>

lemma pool_init_ok:
  assumes v: "valid_network parent" and le: "prefixlen parent \<le> p" and p: "p \<le> 32"
  shows "\<exists>pool. NetworkPool_init parent p = Inr pool \<and>
           length (free_networks pool) = 2 ^ (p - prefixlen parent)"
proof (cases "prefixlen parent = 32")
  case True
  then show ?thesis using le p by (simp add: NetworkPool_init_def subnets_def)
next
  case False
  then have lt: "prefixlen parent < 32" using v by (simp add: valid_network_iff)
  show ?thesis by (simp add: NetworkPool_init_def subnets_eq [OF v lt le p])
qed

lemma gen_networks_ok:
  "k \<le> length (free_networks pool) \<Longrightarrow>
   gen_networks k pool =
     Inr (take k (free_networks pool), pool\<lparr>free_networks := drop k (free_networks pool)\<rparr>)"
proof (induction k arbitrary: pool)
  case 0
  show ?case by simp
next
  case (Suc k)
  then obtain n rest where f: "free_networks pool = n # rest"
    by (cases "free_networks pool") simp_all
  with Suc.prems have "k \<le> length (free_networks (pool\<lparr>free_networks := rest\<rparr>))" by simp
  from Suc.IH [OF this] f show ?case by (simp add: gen_network_def)
qed

text \<open>
  C7 (pool disjointness): for a pool built from a valid parent block and a sub-prefix
  length (a prefix length of at most 32 that is not shorter than the parent's), the blocks
  returned by any number of successful calls of \<^verbatim>\<open>gen_network\<close> are pairwise different, their
  address ranges are pairwise disjoint, and each of them is a block of the partition of the
  parent at the requested prefix length: a valid network of that prefix length whose
  addresses lie in the parent block.
\<close>

theorem pool_disjoint:
  assumes v: "valid_network parent" and le: "prefixlen parent \<le> p" and p: "p \<le> 32"
    and i: "NetworkPool_init parent p = Inr pool"
    and g: "gen_networks k pool = Inr (blocks, pool')"
  shows "distinct blocks \<and>
         (\<forall>i < length blocks. \<forall>j < length blocks. i \<noteq> j \<longrightarrow>
            addresses (blocks ! i) \<inter> addresses (blocks ! j) = {}) \<and>
         (\<forall>b \<in> set blocks. valid_network b \<and> prefixlen b = p \<and> addresses b \<subseteq> addresses parent)"
proof -
  from gen_networks_take [OF g]
  have k: "k \<le> length (free_networks pool)" and b: "blocks = take k (free_networks pool)"
    by simp_all
  let ?f = "\<lambda>j. (network_address parent + j * 2 ^ (32 - p), p)"
  have f: "free_networks pool = map ?f [0..<2 ^ (p - prefixlen parent)]"
  proof (cases "prefixlen parent = 32")
    case True
    then have "p = 32" using le p by simp
    moreover have "free_networks pool = [parent]"
      using i True by (auto simp add: NetworkPool_init_def subnets_def)
    ultimately show ?thesis using True by (cases parent) (simp add: net_simps)
  next
    case False
    then have lt: "prefixlen parent < 32" using v by (simp add: valid_network_iff)
    from i show ?thesis by (auto simp add: NetworkPool_init_def subnets_eq [OF v lt le p])
  qed
  have len: "length blocks = k" and kn: "k \<le> 2 ^ (p - prefixlen parent)"
    using k b f by simp_all
  have nth: "blocks ! i = ?f i" if "i < k" for i
    using that kn b f by simp
  note bf = block_facts [OF v le p]
  have dis: "addresses (blocks ! i) \<inter> addresses (blocks ! j) = {}"
    if "i < j" and "j < k" for i j
  proof -
    have ij: "i < 2 ^ (p - prefixlen parent)" "j < 2 ^ (p - prefixlen parent)" "i < k"
      using that kn by simp_all
    have "addresses (?f i) \<inter> addresses (?f j) = {}"
      unfolding bf(2) [OF ij(1)] bf(2) [OF ij(2)] using that(1) by (rule blocks_disjoint) simp
    then show ?thesis
      using nth [OF ij(3)] nth [OF that(2)] by simp
  qed
  have ne: "addresses (blocks ! i) \<noteq> {}" if "i < k" for i
  proof -
    have i: "i < 2 ^ (p - prefixlen parent)" using that kn by simp
    have "(0::nat) < 2 ^ (32 - p)" by simp
    then have "network_address parent + i * 2 ^ (32 - p) \<le>
               network_address parent + i * 2 ^ (32 - p) + 2 ^ (32 - p) - 1"
      by linarith
    then have "addresses (?f i) \<noteq> {}" unfolding bf(2) [OF i] by simp
    then show ?thesis using nth [OF that] by simp
  qed
  have 2: "\<forall>i < length blocks. \<forall>j < length blocks. i \<noteq> j \<longrightarrow>
          addresses (blocks ! i) \<inter> addresses (blocks ! j) = {}"
  proof (intro allI impI)
    fix i j assume "i < length blocks" "j < length blocks" "i \<noteq> j"
    then consider "i < j" "j < k" | "j < i" "i < k" using len by linarith
    then show "addresses (blocks ! i) \<inter> addresses (blocks ! j) = {}"
      using dis [of i j] dis [of j i] by cases auto
  qed
  have 1: "distinct blocks"
    unfolding distinct_conv_nth
  proof (intro allI impI)
    fix i j assume ij: "i < length blocks" "j < length blocks" "i \<noteq> j"
    show "blocks ! i \<noteq> blocks ! j"
    proof
      assume "blocks ! i = blocks ! j"
      then have "addresses (blocks ! i) \<inter> addresses (blocks ! j) = addresses (blocks ! i)" by simp
      then show False using 2 ij ne [of i] len by auto
    qed
  qed
  have 3: "\<forall>b \<in> set blocks. valid_network b \<and> prefixlen b = p \<and> addresses b \<subseteq> addresses parent"
  proof
    fix x assume "x \<in> set blocks"
    then obtain i where i: "i < k" and x: "x = blocks ! i"
      using len by (auto simp add: in_set_conv_nth)
    then have "i < 2 ^ (p - prefixlen parent)" using kn by simp
    from bf(1) [OF this] bf(3) [OF this]
    show "valid_network x \<and> prefixlen x = p \<and> addresses x \<subseteq> addresses parent"
      by (simp add: x nth [OF i] prefixlen_def)
  qed
  from 1 2 3 show ?thesis by simp
qed

theorem pool_disjoint_witness:
  "valid_network (167772160, 24) \<and> prefixlen (167772160, 24) \<le> 30 \<and> (30::nat) \<le> 32 \<and>
   NetworkPool_init (167772160, 24) 30 =
     Inr \<lparr>free_networks = map (\<lambda>k. (167772160 + k * 4, 30)) [0..<64]\<rparr> \<and>
   gen_networks 3 \<lparr>free_networks = map (\<lambda>k. (167772160 + k * 4, 30)) [0..<64]\<rparr> =
     Inr ([(167772160, 30), (167772164, 30), (167772168, 30)],
          \<lparr>free_networks = map (\<lambda>k. (167772160 + k * 4, 30)) [3..<64]\<rparr>) \<and>
   distinct ([(167772160, 30), (167772164, 30), (167772168, 30)] :: ipv4network list) \<and>
   addresses (167772160, 30) \<inter> addresses (167772164, 30) = {} \<and>
   addresses (167772160, 30) \<inter> addresses (167772168, 30) = {} \<and>
   addresses (167772164, 30) \<inter> addresses (167772168, 30) = {} \<and>
   valid_network (167772160, 30) \<and> prefixlen (167772160, 30) = 30 \<and>
   addresses (167772160, 30) \<subseteq> addresses (167772160, 24) \<and>
   valid_network (167772164, 30) \<and> prefixlen (167772164, 30) = 30 \<and>
   addresses (167772164, 30) \<subseteq> addresses (167772160, 24) \<and>
   valid_network (167772168, 30) \<and> prefixlen (167772168, 30) = 30 \<and>
   addresses (167772168, 30) \<subseteq> addresses (167772160, 24)"
proof -
  let ?blocks = "[(167772160, 30), (167772164, 30), (167772168, 30)] :: ipv4network list"
  have v: "valid_network (167772160, 24)" by (simp add: valid_network_iff net_simps)
  have le: "prefixlen (167772160, 24) \<le> 30" and p: "(30::nat) \<le> 32" by (simp_all add: net_simps)
  have i: "NetworkPool_init (167772160, 24) 30 =
     Inr \<lparr>free_networks = map (\<lambda>k. (167772160 + k * 4, 30)) [0..<64]\<rparr>"
    using v by (simp add: NetworkPool_init_def subnets_eq net_simps)
  have g: "gen_networks 3 \<lparr>free_networks = map (\<lambda>k. (167772160 + k * 4, 30)) [0..<64]\<rparr> =
     Inr (?blocks, \<lparr>free_networks = map (\<lambda>k. (167772160 + k * 4, 30)) [3..<64]\<rparr>)"
    by (simp add: numeral_3_eq_3 gen_network_upt)
  have T: "distinct ?blocks \<and>
         (\<forall>i < length ?blocks. \<forall>j < length ?blocks. i \<noteq> j \<longrightarrow>
            addresses (?blocks ! i) \<inter> addresses (?blocks ! j) = {}) \<and>
         (\<forall>b \<in> set ?blocks. valid_network b \<and> prefixlen b = 30 \<and>
            addresses b \<subseteq> addresses (167772160, 24))"
    by (rule pool_disjoint [OF v le p i g])
  have d: "distinct ?blocks" using T by (rule conjunct1)
  have o: "i < length ?blocks \<Longrightarrow> j < length ?blocks \<Longrightarrow> i \<noteq> j \<Longrightarrow>
           addresses (?blocks ! i) \<inter> addresses (?blocks ! j) = {}" for i j
    using T by blast
  have m: "b \<in> set ?blocks \<Longrightarrow>
           valid_network b \<and> prefixlen b = 30 \<and> addresses b \<subseteq> addresses (167772160, 24)" for b
    using T by blast
  from o [of 0 1] o [of 0 2] o [of 1 2]
  have "addresses (167772160, 30) \<inter> addresses (167772164, 30) = {}"
    and "addresses (167772160, 30) \<inter> addresses (167772168, 30) = {}"
    and "addresses (167772164, 30) \<inter> addresses (167772168, 30) = {}"
    by simp_all
  moreover from m [of "(167772160, 30)"] m [of "(167772164, 30)"] m [of "(167772168, 30)"]
  have "valid_network (167772160, 30) \<and> prefixlen (167772160, 30) = 30 \<and>
        addresses (167772160, 30) \<subseteq> addresses (167772160, 24)"
    and "valid_network (167772164, 30) \<and> prefixlen (167772164, 30) = 30 \<and>
        addresses (167772164, 30) \<subseteq> addresses (167772160, 24)"
    and "valid_network (167772168, 30) \<and> prefixlen (167772168, 30) = 30 \<and>
        addresses (167772168, 30) \<subseteq> addresses (167772160, 24)"
    by simp_all
  ultimately show ?thesis using v le p i g d by blast
qed

end
